theory Spec2Isabelle
  imports Complex_Main "HOL-Library.Monad_Syntax"
begin

section \<open>The binary search tree of \<^verbatim>\<open>bst.hpp\<close>\<close>

text \<open>
  The container keeps its nodes on the free store: every node owns its two children through
  \<^verbatim>\<open>std::unique_ptr\<close> and points back to its parent through a raw pointer. The model keeps
  this graph as it is: a node is a record of three pointers and an entry, the free store is
  a table of nodes indexed by address, and every member function takes the state and
  returns the new one. A result \<open>None\<close> of a member function means that the call does not
  return normally: its loop never ends, it reads or writes through a pointer that is null
  or dangling (undefined behaviour in C++), or its recursion needs more room than the call
  stack has.

  The call stack is finite. Two functions of the source call themselves once for every
  level of the tree they work on: the destructor \<^verbatim>\<open>~node()\<close>, through the two
  \<^verbatim>\<open>unique_ptr\<close> members, and the copy constructor of \<^verbatim>\<open>node\<close>. The size of the stack
  is a matter of the platform, not of the source, so it is a parameter: \<open>stk\<close> is the
  number of nested calls of such a function for which the stack has room, and it is the
  first argument of every function that can delete or copy nodes. The other recursions of
  the source are of bounded depth (\<^verbatim>\<open>erase\<close> calls itself once, \<^verbatim>\<open>_balance\<close> halves its
  range of \<^verbatim>\<open>int\<close> indices) and are not counted.

  The comparator \<^verbatim>\<open>cmp_op op\<close> is a stateless function object; it is the first argument
  \<open>op\<close> of every function that compares keys. The test \<^verbatim>\<open>==\<close> on keys is HOL's equality.

  The functions carry the names of the source. A private member \<^verbatim>\<open>_f\<close> is \<open>priv_f\<close>, the
  public \<^verbatim>\<open>find\<close>, \<^verbatim>\<open>insert\<close>, \<^verbatim>\<open>begin\<close> and \<^verbatim>\<open>end\<close> are \<open>find_bst\<close>, \<open>insert_bst\<close>,
  \<open>begin_bst\<close> and \<open>end_bst\<close>, and the member \<^verbatim>\<open>value\<close> of a node is \<open>val\<close>. A loop of the
  source is a recursive function of its own, named after the function it belongs to.
\<close>

subsection \<open>Nodes and the free store\<close>

type_synonym addr = nat

record ('k, 'v) node =
  right :: "addr option"
  left :: "addr option"
  parent :: "addr option"
  val :: "'k \<times> 'v"

type_synonym ('k, 'v) heap = "('k, 'v) node option list"

text \<open>Reading through a pointer: \<open>None\<close> when the address was never allocated or was freed.\<close>

definition deref :: "('k, 'v) heap \<Rightarrow> addr \<Rightarrow> ('k, 'v) node option" where
  "deref h a = (if a < length h then h ! a else None)"

text \<open>\<^verbatim>\<open>new node_t{...}\<close>: the node gets an address that was never used before.\<close>

definition new :: "('k, 'v) heap \<Rightarrow> ('k, 'v) node \<Rightarrow> addr \<times> ('k, 'v) heap" where
  "new h n = (length h, h @ [Some n])"

text \<open>Writing the fields of a live node; writing through a dangling pointer is an error.\<close>

definition store :: "('k, 'v) heap \<Rightarrow> addr \<Rightarrow> ('k, 'v) node \<Rightarrow> ('k, 'v) heap option" where
  "store h a n = (if deref h a = None then None else Some (h[a := Some n]))"

text \<open>Giving the storage of one node back.\<close>

definition free :: "('k, 'v) heap \<Rightarrow> addr \<Rightarrow> ('k, 'v) heap" where
  "free h a = h[a := None]"

text \<open>The four constructors of \<^verbatim>\<open>node\<close> that take an entry: children are null or given.\<close>

definition node2 :: "'k \<times> 'v \<Rightarrow> addr option \<Rightarrow> ('k, 'v) node" where
  "node2 x p = \<lparr>right = None, left = None, parent = p, val = x\<rparr>"

definition node4 ::
  "'k \<times> 'v \<Rightarrow> addr option \<Rightarrow> addr option \<Rightarrow> addr option \<Rightarrow> ('k, 'v) node" where
  "node4 x r l p = \<lparr>right = r, left = l, parent = p, val = x\<rparr>"

text \<open>
  \<^verbatim>\<open>~node()\<close>, run by \<^verbatim>\<open>delete\<close>: the members are destroyed in the reverse order of their
  declaration, so the left subtree goes first, then the right one, then the node itself.
  The destructor of a child runs inside the destructor of its parent: a call that finds no
  room on the stack does not return.
\<close>

fun destroy :: "nat \<Rightarrow> ('k, 'v) heap \<Rightarrow> addr \<Rightarrow> ('k, 'v) heap option" where
  "destroy 0 h a = None"
| "destroy (Suc stk) h a =
     (case deref h a of
        None \<Rightarrow> None
      | Some n \<Rightarrow>
          do {
            h1 \<leftarrow> (case left n of None \<Rightarrow> Some h | Some l \<Rightarrow> destroy stk h l);
            h2 \<leftarrow> (case right n of None \<Rightarrow> Some h1 | Some r \<Rightarrow> destroy stk h1 r);
            Some (free h2 a)
          })"

text \<open>\<^verbatim>\<open>unique_ptr::reset()\<close> on a pointer whose old value is \<open>old\<close>: the old node is deleted.\<close>

definition reset :: "nat \<Rightarrow> ('k, 'v) heap \<Rightarrow> addr option \<Rightarrow> ('k, 'v) heap option" where
  "reset stk h old = (case old of None \<Rightarrow> Some h | Some a \<Rightarrow> destroy stk h a)"

subsection \<open>The tree object\<close>

record ('k, 'v) bst =
  root :: "addr option"
  heap :: "('k, 'v) heap"

definition empty_bst :: "('k, 'v) bst" where
  "empty_bst = \<lparr>root = None, heap = []\<rparr>"

subsection \<open>\<^verbatim>\<open>_find\<close> and \<^verbatim>\<open>find\<close>\<close>

text \<open>
  The \<^verbatim>\<open>while (tmp)\<close> loop of \<^verbatim>\<open>_find\<close>, from the current value of \<^verbatim>\<open>tmp\<close>. The result
  \<open>Some None\<close> is the null pointer, \<open>Some (Some a)\<close> the node at address \<open>a\<close>.
\<close>

partial_function (option) find_loop ::
  "('k \<Rightarrow> 'k \<Rightarrow> bool) \<Rightarrow> ('k, 'v) heap \<Rightarrow> 'k \<Rightarrow> addr option \<Rightarrow> addr option option" where
  "find_loop op h x tmp =
     (case tmp of
        None \<Rightarrow> Some None
      | Some a \<Rightarrow>
          (case deref h a of
             None \<Rightarrow> None
           | Some n \<Rightarrow>
               if fst (val n) = x then Some (Some a)
               else if op x (fst (val n)) then find_loop op h x (left n)
               else if op (fst (val n)) x then find_loop op h x (right n)
               else Some None))"

definition priv_find ::
  "('k \<Rightarrow> 'k \<Rightarrow> bool) \<Rightarrow> ('k, 'v) bst \<Rightarrow> 'k \<Rightarrow> addr option option" where
  "priv_find op s x =
     (if root s = None then Some None else find_loop op (heap s) x (root s))"

text \<open>An iterator holds one node pointer; the end iterator holds the null pointer.\<close>

type_synonym iterator = "addr option"

definition find_bst :: "('k \<Rightarrow> 'k \<Rightarrow> bool) \<Rightarrow> ('k, 'v) bst \<Rightarrow> 'k \<Rightarrow> iterator option" where
  "find_bst op s x = priv_find op s x"

subsection \<open>\<^verbatim>\<open>_insert\<close>, \<^verbatim>\<open>insert\<close> and \<^verbatim>\<open>emplace\<close>\<close>

text \<open>
  The loop of \<^verbatim>\<open>_insert\<close> runs while \<^verbatim>\<open>tmp\<close> is not null; after it,
  \<^verbatim>\<open>root = std::make_unique<node_t>(x, nullptr)\<close> makes the node and then assigns it to
  \<^verbatim>\<open>root\<close>, which deletes what \<^verbatim>\<open>root\<close> owned; this deletion is why \<^verbatim>\<open>_insert\<close> and
  its callers carry the room \<open>stk\<close> on the stack. One pass through the body of the \<^verbatim>\<open>while (tmp)\<close> loop of \<^verbatim>\<open>_insert\<close> either returns
  from the function or ends with a new value of \<^verbatim>\<open>tmp\<close>.
\<close>

datatype ('a, 'b) pass = Again 'a | Return 'b

text \<open>\<^verbatim>\<open>tmp->right = std::make_unique<node_t>(x, tmp)\<close>, the slot being empty.\<close>

definition attach_right ::
  "('k, 'v) heap \<Rightarrow> addr \<Rightarrow> 'k \<times> 'v \<Rightarrow> (addr \<times> ('k, 'v) heap) option" where
  "attach_right h tmp x =
     (let (b, h1) = new h (node2 x (Some tmp)) in
      case deref h1 tmp of
        None \<Rightarrow> None
      | Some n \<Rightarrow> map_option (Pair b) (store h1 tmp (n\<lparr>right := Some b\<rparr>)))"

definition attach_left ::
  "('k, 'v) heap \<Rightarrow> addr \<Rightarrow> 'k \<times> 'v \<Rightarrow> (addr \<times> ('k, 'v) heap) option" where
  "attach_left h tmp x =
     (let (b, h1) = new h (node2 x (Some tmp)) in
      case deref h1 tmp of
        None \<Rightarrow> None
      | Some n \<Rightarrow> map_option (Pair b) (store h1 tmp (n\<lparr>left := Some b\<rparr>)))"

text \<open>The second \<^verbatim>\<open>if\<close> of the loop body; it reads \<^verbatim>\<open>tmp\<close> as the first \<^verbatim>\<open>if\<close> left it.\<close>

definition insert_second ::
  "('k \<Rightarrow> 'k \<Rightarrow> bool) \<Rightarrow> 'k \<times> 'v \<Rightarrow> ('k, 'v) heap \<Rightarrow> addr \<Rightarrow>
     (addr, addr \<times> ('k, 'v) heap) pass option" where
  "insert_second op x h tmp =
     (case deref h tmp of
        None \<Rightarrow> None
      | Some n \<Rightarrow>
          if op (fst x) (fst (val n)) then
            (case left n of
               Some l \<Rightarrow> Some (Again l)
             | None \<Rightarrow> map_option Return (attach_left h tmp x))
          else Some (Again tmp))"

definition insert_body ::
  "('k \<Rightarrow> 'k \<Rightarrow> bool) \<Rightarrow> 'k \<times> 'v \<Rightarrow> ('k, 'v) heap \<Rightarrow> addr \<Rightarrow>
     (addr, addr \<times> ('k, 'v) heap) pass option" where
  "insert_body op x h tmp =
     (case deref h tmp of
        None \<Rightarrow> None
      | Some n \<Rightarrow>
          if op (fst (val n)) (fst x) then
            (case right n of
               Some r \<Rightarrow> insert_second op x h r
             | None \<Rightarrow> map_option Return (attach_right h tmp x))
          else insert_second op x h tmp)"

partial_function (option) insert_loop ::
  "nat \<Rightarrow> ('k \<Rightarrow> 'k \<Rightarrow> bool) \<Rightarrow> 'k \<times> 'v \<Rightarrow> ('k, 'v) bst \<Rightarrow> addr option \<Rightarrow>
     ((iterator \<times> bool) \<times> ('k, 'v) bst) option" where
  "insert_loop stk op x s tmp =
     (case tmp of
        None \<Rightarrow>
          (let (b, h1) = new (heap s) (node2 x None) in
           case reset stk h1 (root s) of
             None \<Rightarrow> None
           | Some h2 \<Rightarrow> Some ((Some b, True), \<lparr>root = Some b, heap = h2\<rparr>))
      | Some a \<Rightarrow>
          (case insert_body op x (heap s) a of
             None \<Rightarrow> None
           | Some (Return (b, h1)) \<Rightarrow> Some ((Some b, True), s\<lparr>heap := h1\<rparr>)
           | Some (Again t) \<Rightarrow> insert_loop stk op x s (Some t)))"

definition priv_insert ::
  "nat \<Rightarrow> ('k \<Rightarrow> 'k \<Rightarrow> bool) \<Rightarrow> 'k \<times> 'v \<Rightarrow> ('k, 'v) bst \<Rightarrow>
     ((iterator \<times> bool) \<times> ('k, 'v) bst) option" where
  "priv_insert stk op x s =
     (case priv_find op s (fst x) of
        None \<Rightarrow> None
      | Some (Some n) \<Rightarrow> Some ((Some n, False), s)
      | Some None \<Rightarrow> insert_loop stk op x s (root s))"

definition insert_bst ::
  "nat \<Rightarrow> ('k \<Rightarrow> 'k \<Rightarrow> bool) \<Rightarrow> 'k \<times> 'v \<Rightarrow> ('k, 'v) bst \<Rightarrow>
     ((iterator \<times> bool) \<times> ('k, 'v) bst) option" where
  "insert_bst stk op x s = priv_insert stk op x s"

text \<open>
  \<^verbatim>\<open>emplace(args...)\<close> builds a \<^verbatim>\<open>pair_type\<close> from its arguments: a key and a value, or
  a pair to copy.
\<close>

datatype ('k, 'v) args = Key_Value 'k 'v | Entry "'k \<times> 'v"

fun pair_type :: "('k, 'v) args \<Rightarrow> 'k \<times> 'v" where
  "pair_type (Key_Value k v) = (k, v)"
| "pair_type (Entry e) = e"

definition emplace ::
  "nat \<Rightarrow> ('k \<Rightarrow> 'k \<Rightarrow> bool) \<Rightarrow> ('k, 'v) args \<Rightarrow> ('k, 'v) bst \<Rightarrow>
     ((iterator \<times> bool) \<times> ('k, 'v) bst) option" where
  "emplace stk op as s = insert_bst stk op (pair_type as) s"

subsection \<open>\<^verbatim>\<open>clear\<close>, \<^verbatim>\<open>_inorder\<close> and \<^verbatim>\<open>begin\<close>\<close>

definition clear :: "nat \<Rightarrow> ('k, 'v) bst \<Rightarrow> ('k, 'v) bst option" where
  "clear stk s = map_option (\<lambda>h. \<lparr>root = None, heap = h\<rparr>) (reset stk (heap s) (root s))"

text \<open>
  \<^verbatim>\<open>while (x->left) { x = x->left.get(); }\<close>: the loop of \<^verbatim>\<open>_inorder\<close>, and of
  \<^verbatim>\<open>begin\<close>, \<^verbatim>\<open>cbegin\<close> on \<^verbatim>\<open>tmp\<close>.
\<close>

partial_function (option) leftmost :: "('k, 'v) heap \<Rightarrow> addr \<Rightarrow> addr option" where
  "leftmost h x =
     (case deref h x of
        None \<Rightarrow> None
      | Some n \<Rightarrow> (case left n of None \<Rightarrow> Some x | Some l \<Rightarrow> leftmost h l))"

definition priv_inorder :: "('k, 'v) heap \<Rightarrow> addr \<Rightarrow> addr option" where
  "priv_inorder h x = leftmost h x"

definition begin_bst :: "('k, 'v) bst \<Rightarrow> iterator option" where
  "begin_bst s =
     (case root s of None \<Rightarrow> Some None | Some r \<Rightarrow> map_option Some (leftmost (heap s) r))"

definition end_bst :: "('k, 'v) bst \<Rightarrow> iterator" where
  "end_bst s = None"

subsection \<open>\<^verbatim>\<open>erase\<close>\<close>

text \<open>Assignments through node pointers and the \<^verbatim>\<open>unique_ptr\<close> members used by \<^verbatim>\<open>erase\<close>.\<close>

definition set_parent ::
  "('k, 'v) heap \<Rightarrow> addr \<Rightarrow> addr option \<Rightarrow> ('k, 'v) heap option" where
  "set_parent h a p =
     (case deref h a of None \<Rightarrow> None | Some n \<Rightarrow> store h a (n\<lparr>parent := p\<rparr>))"

text \<open>\<^verbatim>\<open>a->left.release()\<close>: the pointer is handed out and the member becomes null.\<close>

definition release_left ::
  "('k, 'v) heap \<Rightarrow> addr \<Rightarrow> (addr option \<times> ('k, 'v) heap) option" where
  "release_left h a =
     (case deref h a of
        None \<Rightarrow> None
      | Some n \<Rightarrow> map_option (Pair (left n)) (store h a (n\<lparr>left := None\<rparr>)))"

definition release_right ::
  "('k, 'v) heap \<Rightarrow> addr \<Rightarrow> (addr option \<times> ('k, 'v) heap) option" where
  "release_right h a =
     (case deref h a of
        None \<Rightarrow> None
      | Some n \<Rightarrow> map_option (Pair (right n)) (store h a (n\<lparr>right := None\<rparr>)))"

text \<open>\<^verbatim>\<open>p->left.reset(c)\<close>: the member takes \<open>c\<close>, then the node it owned is deleted.\<close>

definition reset_left ::
  "nat \<Rightarrow> ('k, 'v) heap \<Rightarrow> addr \<Rightarrow> addr option \<Rightarrow> ('k, 'v) heap option" where
  "reset_left stk h p c =
     (case deref h p of
        None \<Rightarrow> None
      | Some n \<Rightarrow> Option.bind (store h p (n\<lparr>left := c\<rparr>)) (\<lambda>h1. reset stk h1 (left n)))"

definition reset_right ::
  "nat \<Rightarrow> ('k, 'v) heap \<Rightarrow> addr \<Rightarrow> addr option \<Rightarrow> ('k, 'v) heap option" where
  "reset_right stk h p c =
     (case deref h p of
        None \<Rightarrow> None
      | Some n \<Rightarrow> Option.bind (store h p (n\<lparr>right := c\<rparr>)) (\<lambda>h1. reset stk h1 (right n)))"

text \<open>\<^verbatim>\<open>root.reset(c)\<close>.\<close>

definition reset_root :: "nat \<Rightarrow> ('k, 'v) bst \<Rightarrow> addr option \<Rightarrow> ('k, 'v) bst option" where
  "reset_root stk s c = map_option (\<lambda>h. \<lparr>root = c, heap = h\<rparr>) (reset stk (heap s) (root s))"

text \<open>The branch of \<^verbatim>\<open>erase\<close> for a node \<open>n\<close> without children.\<close>

definition erase_leaf :: "nat \<Rightarrow> ('k, 'v) bst \<Rightarrow> addr \<Rightarrow> ('k, 'v) bst option" where
  "erase_leaf stk s n =
     (if Some n \<noteq> root s then
        do {
          nd \<leftarrow> deref (heap s) n;
          p \<leftarrow> parent nd;
          pn \<leftarrow> deref (heap s) p;
          h1 \<leftarrow> (if Some n = left pn then reset_left stk (heap s) p None
                 else reset_right stk (heap s) p None);
          Some (s\<lparr>heap := h1\<rparr>)
        }
      else reset_root stk s None)"

text \<open>The last branch of \<^verbatim>\<open>erase\<close>: the node \<open>n\<close> has exactly one child.\<close>

definition erase_one_child :: "nat \<Rightarrow> ('k, 'v) bst \<Rightarrow> addr \<Rightarrow> ('k, 'v) bst option" where
  "erase_one_child stk s n =
     do {
       nd \<leftarrow> deref (heap s) n;
       if Some n = root s then
         (case right nd of
            Some r \<Rightarrow>
              do {
                h1 \<leftarrow> set_parent (heap s) r None;
                (c, h2) \<leftarrow> release_right h1 n;
                reset_root stk (s\<lparr>heap := h2\<rparr>) c
              }
          | None \<Rightarrow>
              do {
                l \<leftarrow> left nd;
                h1 \<leftarrow> set_parent (heap s) l None;
                (c, h2) \<leftarrow> release_left h1 n;
                reset_root stk (s\<lparr>heap := h2\<rparr>) c
              })
       else
         do {
           p \<leftarrow> parent nd;
           pn \<leftarrow> deref (heap s) p;
           if left pn = Some n then
             (case left nd of
                Some l \<Rightarrow>
                  do {
                    h1 \<leftarrow> set_parent (heap s) l (parent nd);
                    (c, h2) \<leftarrow> release_left h1 n;
                    h3 \<leftarrow> reset_left stk h2 p c;
                    Some (s\<lparr>heap := h3\<rparr>)
                  }
              | None \<Rightarrow>
                  do {
                    r \<leftarrow> right nd;
                    h1 \<leftarrow> set_parent (heap s) r (parent nd);
                    (c, h2) \<leftarrow> release_right h1 n;
                    h3 \<leftarrow> reset_left stk h2 p c;
                    Some (s\<lparr>heap := h3\<rparr>)
                  })
           else
             (case left nd of
                Some l \<Rightarrow>
                  do {
                    h1 \<leftarrow> set_parent (heap s) l (parent nd);
                    (c, h2) \<leftarrow> release_left h1 n;
                    h3 \<leftarrow> reset_right stk h2 p c;
                    Some (s\<lparr>heap := h3\<rparr>)
                  }
              | None \<Rightarrow>
                  do {
                    r \<leftarrow> right nd;
                    h1 \<leftarrow> set_parent (heap s) r (parent nd);
                    (c, h2) \<leftarrow> release_right h1 n;
                    h3 \<leftarrow> reset_right stk h2 p c;
                    Some (s\<lparr>heap := h3\<rparr>)
                  })
         }
     }"

text \<open>
  The end of the two-children branch, after the recursive call: the node \<open>n\<close> is replaced by
  a new node that holds the entry \<open>v\<close> and takes over the children and the parent of \<open>n\<close>.
  \<open>rebuild\<close> is \<^verbatim>\<open>new node_t{v, n->right.release(), n->left.release(), n->parent}\<close>, and
  \<open>adopt\<close> the two assignments to the \<^verbatim>\<open>parent\<close> members of the children.
\<close>

definition rebuild ::
  "('k, 'v) heap \<Rightarrow> addr \<Rightarrow> 'k \<times> 'v \<Rightarrow> (addr \<times> ('k, 'v) heap) option" where
  "rebuild h n v =
     do {
       (r, h1) \<leftarrow> release_right h n;
       (l, h2) \<leftarrow> release_left h1 n;
       nd \<leftarrow> deref h2 n;
       Some (new h2 (node4 v r l (parent nd)))
     }"

definition adopt :: "('k, 'v) heap \<Rightarrow> addr \<Rightarrow> ('k, 'v) heap option" where
  "adopt h b =
     do {
       nb \<leftarrow> deref h b;
       h1 \<leftarrow> (case left nb of None \<Rightarrow> Some h | Some l \<Rightarrow> set_parent h l (Some b));
       (case right nb of None \<Rightarrow> Some h1 | Some r \<Rightarrow> set_parent h1 r (Some b))
     }"

definition splice :: "nat \<Rightarrow> ('k, 'v) bst \<Rightarrow> addr \<Rightarrow> 'k \<times> 'v \<Rightarrow> ('k, 'v) bst option" where
  "splice stk s n v =
     (if Some n = root s then
        do {
          (b, h1) \<leftarrow> rebuild (heap s) n v;
          s1 \<leftarrow> reset_root stk (s\<lparr>heap := h1\<rparr>) (Some b);
          h2 \<leftarrow> adopt (heap s1) b;
          Some (s1\<lparr>heap := h2\<rparr>)
        }
      else
        do {
          nd \<leftarrow> deref (heap s) n;
          p \<leftarrow> parent nd;
          pn \<leftarrow> deref (heap s) p;
          (b, h1) \<leftarrow> rebuild (heap s) n v;
          h2 \<leftarrow> adopt h1 b;
          nb \<leftarrow> deref h2 b;
          q \<leftarrow> parent nb;
          h3 \<leftarrow> (if left pn = Some n then reset_left stk h2 q (Some b)
                 else reset_right stk h2 q (Some b));
          Some (s\<lparr>heap := h3\<rparr>)
        })"

partial_function (option) erase ::
  "nat \<Rightarrow> ('k \<Rightarrow> 'k \<Rightarrow> bool) \<Rightarrow> 'k \<Rightarrow> ('k, 'v) bst \<Rightarrow> ('k, 'v) bst option" where
  "erase stk op x s =
     (case priv_find op s x of
        None \<Rightarrow> None
      | Some None \<Rightarrow> Some s
      | Some (Some n) \<Rightarrow>
          (case deref (heap s) n of
             None \<Rightarrow> None
           | Some nd \<Rightarrow>
               if left nd = None \<and> right nd = None then erase_leaf stk s n
               else if left nd \<noteq> None \<and> right nd \<noteq> None then
                 do {
                   r \<leftarrow> right nd;
                   i \<leftarrow> priv_inorder (heap s) r;
                   ind \<leftarrow> deref (heap s) i;
                   s1 \<leftarrow> erase stk op (fst (val ind)) s;
                   splice stk s1 n (val ind)
                 }
               else erase_one_child stk s n))"

subsection \<open>The iterator\<close>

text \<open>
  Modelled from the spec: \<^verbatim>\<open>iterator.hpp\<close>, the class \<^verbatim>\<open>_iterator\<close> with its increment,
  is not among the sources. The specification (section 4.6) gives the increment: if the
  current node has a right child, move to that child's leftmost descendant; otherwise ascend
  via parent links while the current node is its parent's right child, stop at the first
  ancestor for which the current node is the left child, and move to that ancestor; if no
  such ancestor exists, the result is the end cursor. Dereferencing yields the entry.
\<close>

partial_function (option) ascend :: "('k, 'v) heap \<Rightarrow> addr \<Rightarrow> iterator option" where
  "ascend h a =
     (case deref h a of
        None \<Rightarrow> None
      | Some n \<Rightarrow>
          (case parent n of
             None \<Rightarrow> Some None
           | Some p \<Rightarrow>
               (case deref h p of
                  None \<Rightarrow> None
                | Some pn \<Rightarrow> if right pn = Some a then ascend h p else Some (Some p))))"

text \<open>
  Modelled from the spec: \<^verbatim>\<open>operator++\<close> of the iterator (section 4.6, as quoted above); the
  ascent is \<open>ascend\<close>, and the leftmost descendant is found by the loop that \<^verbatim>\<open>begin\<close> has.
\<close>

definition increment :: "('k, 'v) heap \<Rightarrow> addr \<Rightarrow> iterator option" where
  "increment h a =
     (case deref h a of
        None \<Rightarrow> None
      | Some n \<Rightarrow>
          (case right n of
             Some r \<Rightarrow> map_option Some (leftmost h r)
           | None \<Rightarrow> ascend h a))"

text \<open>
  \<^verbatim>\<open>for (const auto& i : x) body\<close>, from the iterator \<open>it\<close> up to \<^verbatim>\<open>end()\<close>: the body \<open>f\<close>
  gets the entry and updates what the loop works on. Modelled from the spec: the loop
  compares the iterator with \<^verbatim>\<open>end()\<close> and dereferences it; by section 4.6 two iterators
  are equal iff they reference the same node or are both the end cursor, and dereferencing
  yields the entry of the node.
\<close>

partial_function (option) for_range ::
  "('k, 'v) heap \<Rightarrow> iterator \<Rightarrow> ('k \<times> 'v \<Rightarrow> 'a \<Rightarrow> 'a) \<Rightarrow> 'a \<Rightarrow> 'a option" where
  "for_range h it f acc =
     (case it of
        None \<Rightarrow> Some acc
      | Some a \<Rightarrow>
          (case deref h a of
             None \<Rightarrow> None
           | Some n \<Rightarrow>
               (case increment h a of
                  None \<Rightarrow> None
                | Some nxt \<Rightarrow> for_range h nxt f (f (val n) acc))))"

text \<open>The entries of the tree in the order in which a loop over it visits them.\<close>

definition entries :: "('k, 'v) bst \<Rightarrow> ('k \<times> 'v) list option" where
  "entries s =
     (case begin_bst s of
        None \<Rightarrow> None
      | Some b \<Rightarrow> for_range (heap s) b (\<lambda>i nodes. nodes @ [i]) [])"

subsection \<open>\<^verbatim>\<open>operator<<\<close>\<close>

text \<open>
  The stream is the text written so far; \<open>shw\<close> is the output operator of the key type.
\<close>

definition stream_out :: "('k \<Rightarrow> string) \<Rightarrow> string \<Rightarrow> ('k, 'v) bst \<Rightarrow> string option" where
  "stream_out shw os x =
     (case begin_bst x of
        None \<Rightarrow> None
      | Some b \<Rightarrow> for_range (heap x) b (\<lambda>i os. os @ shw (fst i) @ '' '') os)"

subsection \<open>\<^verbatim>\<open>_balance\<close> and \<^verbatim>\<open>balance\<close>\<close>

text \<open>
  The indices are of type \<^verbatim>\<open>int\<close>, 32 bits wide: a sum that leaves the range is undefined
  behaviour, and \<^verbatim>\<open>nodes.size()\<close> is brought into the range modulo \<open>2 ^ 32\<close> when
  it is passed as \<^verbatim>\<open>end\<close>. The division of C++ rounds towards zero. Reading the vector
  outside its bounds is undefined behaviour.
\<close>

definition INT_MAX :: int where
  "INT_MAX = 2147483647"

definition int_of_size :: "nat \<Rightarrow> int" where
  "int_of_size n =
     (let m = int n mod 4294967296 in if m \<le> INT_MAX then m else m - 4294967296)"

definition half :: "int \<Rightarrow> int" where
  "half x = (if 0 \<le> x then x div 2 else - ((- x) div 2))"

partial_function (option) priv_balance ::
  "nat \<Rightarrow> ('k \<Rightarrow> 'k \<Rightarrow> bool) \<Rightarrow> ('k \<times> 'v) list \<Rightarrow> int \<Rightarrow> int \<Rightarrow> ('k, 'v) bst \<Rightarrow>
     ('k, 'v) bst option" where
  "priv_balance stk op nodes start en s =
     (if start < en then
        (if start + en < - INT_MAX - 1 \<or> INT_MAX < start + en then None
         else
           (let mid = half (start + en) in
            if mid < 0 \<or> int (length nodes) \<le> mid then None
            else
              do {
                (r, s1) \<leftarrow> insert_bst stk op (nodes ! nat mid) s;
                s2 \<leftarrow> priv_balance stk op nodes start mid s1;
                priv_balance stk op nodes (mid + 1) en s2
              }))
      else Some s)"

definition balance :: "nat \<Rightarrow> ('k \<Rightarrow> 'k \<Rightarrow> bool) \<Rightarrow> ('k, 'v) bst \<Rightarrow> ('k, 'v) bst option" where
  "balance stk op s =
     do {
       nodes \<leftarrow> entries s;
       s1 \<leftarrow> clear stk s;
       priv_balance stk op nodes 0 (int_of_size (length nodes)) s1
     }"

subsection \<open>Copying\<close>

text \<open>
  The copy constructor of \<^verbatim>\<open>node\<close>: the new node gets its storage, its parent and a copy
  of the entry; then the right subtree of \<open>x\<close> is copied under it, then the left one, each
  by a nested call of the constructor, which needs room on the stack.
\<close>

definition set_right ::
  "('k, 'v) heap \<Rightarrow> addr \<Rightarrow> addr option \<Rightarrow> ('k, 'v) heap option" where
  "set_right h a c =
     (case deref h a of None \<Rightarrow> None | Some n \<Rightarrow> store h a (n\<lparr>right := c\<rparr>))"

definition set_left ::
  "('k, 'v) heap \<Rightarrow> addr \<Rightarrow> addr option \<Rightarrow> ('k, 'v) heap option" where
  "set_left h a c =
     (case deref h a of None \<Rightarrow> None | Some n \<Rightarrow> store h a (n\<lparr>left := c\<rparr>))"

fun copy_node ::
  "nat \<Rightarrow> ('k, 'v) heap \<Rightarrow> addr \<Rightarrow> addr option \<Rightarrow> (addr \<times> ('k, 'v) heap) option" where
  "copy_node 0 h x p = None"
| "copy_node (Suc stk) h x p =
     (case deref h x of
        None \<Rightarrow> None
      | Some xn \<Rightarrow>
          (let (this, h1) = new h (node2 (val xn) p) in
           do {
             h2 \<leftarrow> (case right xn of
                     None \<Rightarrow> Some h1
                   | Some xr \<Rightarrow>
                       do {
                         (r, h') \<leftarrow> copy_node stk h1 xr (Some this);
                         set_right h' this (Some r)
                       });
             h3 \<leftarrow> (case left xn of
                     None \<Rightarrow> Some h2
                   | Some xl \<Rightarrow>
                       do {
                         (l, h') \<leftarrow> copy_node stk h2 xl (Some this);
                         set_left h' this (Some l)
                       });
             Some (this, h3)
           }))"

text \<open>
  Copy assignment has two tree objects in its hands, \<^verbatim>\<open>*this\<close> and \<open>x\<close>, which may be one
  and the same object. The tree objects are kept in a table, each as its \<^verbatim>\<open>root\<close> member,
  and \<open>this\<close> and \<open>x\<close> are indices into the table. The steps are those of the source:
  \<^verbatim>\<open>root.reset()\<close>; the copy constructor makes \<^verbatim>\<open>tmp\<close> from \<open>x\<close>; the move assignment
  gives the root of \<^verbatim>\<open>tmp\<close> to \<^verbatim>\<open>*this\<close> and leaves \<^verbatim>\<open>tmp\<close> empty.
\<close>

definition copy_ctor ::
  "nat \<Rightarrow> ('k, 'v) heap \<Rightarrow> addr option \<Rightarrow> (addr option \<times> ('k, 'v) heap) option" where
  "copy_ctor stk h xroot =
     (case xroot of
        None \<Rightarrow> Some (None, h)
      | Some xr \<Rightarrow> map_option (\<lambda>(a, h1). (Some a, h1)) (copy_node stk h xr None))"

definition copy_assign ::
  "nat \<Rightarrow> ('k, 'v) heap \<Rightarrow> addr option list \<Rightarrow> nat \<Rightarrow> nat \<Rightarrow>
     (('k, 'v) heap \<times> addr option list) option" where
  "copy_assign stk h objs this x =
     (if length objs \<le> this \<or> length objs \<le> x then None
      else
        do {
          h1 \<leftarrow> reset stk h (objs ! this);
          let objs1 = objs[this := None];
          (tmp, h2) \<leftarrow> copy_ctor stk h1 (objs1 ! x);
          h3 \<leftarrow> reset stk h2 (objs1 ! this);
          Some (h3, objs1[this := tmp])
        })"

text \<open>\<^verbatim>\<open>t = t\<close> for the tree object \<open>s\<close>.\<close>

definition self_assign :: "nat \<Rightarrow> ('k, 'v) bst \<Rightarrow> ('k, 'v) bst option" where
  "self_assign stk s =
     map_option (\<lambda>(h, objs). \<lparr>root = objs ! 0, heap = h\<rparr>) (copy_assign stk (heap s) [root s] 0 0)"

subsection \<open>A client: a sequence of insertions\<close>

fun insert_all ::
  "nat \<Rightarrow> ('k \<Rightarrow> 'k \<Rightarrow> bool) \<Rightarrow> ('k \<times> 'v) list \<Rightarrow> ('k, 'v) bst \<Rightarrow> ('k, 'v) bst option" where
  "insert_all stk op [] s = Some s"
| "insert_all stk op (x # xs) s =
     (case insert_bst stk op x s of None \<Rightarrow> None | Some (r, s1) \<Rightarrow> insert_all stk op xs s1)"

section \<open>The tree that a state holds\<close>

text \<open>
  The invariants of the container are stated on the tree of nodes that the pointers spell
  out. Such a tree records, for every node, its address and its entry.
\<close>

datatype 'a tree = Tip | Fork "'a tree" 'a "'a tree"

type_synonym ('k, 'v) ntree = "(addr \<times> 'k \<times> 'v) tree"

fun inorder :: "'a tree \<Rightarrow> 'a list" where
  "inorder Tip = []"
| "inorder (Fork l x r) = inorder l @ x # inorder r"

fun height :: "'a tree \<Rightarrow> nat" where
  "height Tip = 0"
| "height (Fork l x r) = Suc (max (height l) (height r))"

fun strip :: "('k, 'v) ntree \<Rightarrow> ('k \<times> 'v) tree" where
  "strip Tip = Tip"
| "strip (Fork l x r) = Fork (strip l) (snd x) (strip r)"

definition addrs :: "('k, 'v) ntree \<Rightarrow> addr list" where
  "addrs t = map fst (inorder t)"

definition entries_of :: "('k, 'v) ntree \<Rightarrow> ('k \<times> 'v) list" where
  "entries_of t = map snd (inorder t)"

definition keys_of :: "('k, 'v) ntree \<Rightarrow> 'k list" where
  "keys_of t = map (\<lambda>x. fst (snd x)) (inorder t)"

fun ptr :: "('k, 'v) ntree \<Rightarrow> addr option" where
  "ptr Tip = None"
| "ptr (Fork l x r) = Some (fst x)"

text \<open>
  \<open>tree_at m p t\<close>: in the memory \<open>m\<close> the nodes of \<open>t\<close> are live, each holds its entry and
  points to its children, and parent consistency holds: the root of \<open>t\<close> has the parent
  pointer \<open>p\<close>, and every child points back to the node that owns it.
\<close>

fun tree_at :: "(addr \<Rightarrow> ('k, 'v) node option) \<Rightarrow> addr option \<Rightarrow> ('k, 'v) ntree \<Rightarrow> bool" where
  "tree_at m p Tip = True"
| "tree_at m p (Fork l x r) =
     (m (fst x) = Some \<lparr>right = ptr r, left = ptr l, parent = p, val = snd x\<rparr> \<and>
      tree_at m (Some (fst x)) l \<and> tree_at m (Some (fst x)) r)"

text \<open>
  \<open>wf s t\<close>: the state \<open>s\<close> holds exactly the tree \<open>t\<close>. The root pointer is the root of
  \<open>t\<close>, whose parent pointer is null, and no node occurs twice.
\<close>

definition wf :: "('k, 'v) bst \<Rightarrow> ('k, 'v) ntree \<Rightarrow> bool" where
  "wf s t = (root s = ptr t \<and> tree_at (deref (heap s)) None t \<and> distinct (addrs t))"

text \<open>
  The ordering invariant: every key in the left subtree of a node compares less than the
  key of the node, and every key in its right subtree compares greater.
\<close>

fun bst_ord :: "('k \<Rightarrow> 'k \<Rightarrow> bool) \<Rightarrow> ('k, 'v) ntree \<Rightarrow> bool" where
  "bst_ord op Tip = True"
| "bst_ord op (Fork l x r) =
     (bst_ord op l \<and> bst_ord op r \<and>
      (\<forall>y \<in> set (keys_of l). op y (fst (snd x))) \<and>
      (\<forall>y \<in> set (keys_of r). op (fst (snd x)) y))"

text \<open>The tree of entries that the pointers spell out from \<open>p\<close> on, read off the memory.\<close>

partial_function (option) snapshot ::
  "('k, 'v) heap \<Rightarrow> addr option \<Rightarrow> ('k \<times> 'v) tree option" where
  "snapshot h p =
     (case p of
        None \<Rightarrow> Some Tip
      | Some a \<Rightarrow>
          (case deref h a of
             None \<Rightarrow> None
           | Some n \<Rightarrow>
               do {
                 l \<leftarrow> snapshot h (left n);
                 r \<leftarrow> snapshot h (right n);
                 Some (Fork l (val n) r)
               }))"

section \<open>Contexts: a tree with a hole\<close>

text \<open>
  The member functions work at one place of the tree, reached from the root or through the
  parent pointers. The rest of the tree is a context: the frames from the hole up to the
  root, each frame a node with its other subtree. Plugging a tree into the hole of a context
  gives the whole tree back.
\<close>

datatype 'a frame = InL 'a "'a tree" | InR "'a tree" 'a

fun fill :: "'a frame \<Rightarrow> 'a tree \<Rightarrow> 'a tree" where
  "fill (InL x r) t = Fork t x r"
| "fill (InR l x) t = Fork l x t"

fun plug :: "'a frame list \<Rightarrow> 'a tree \<Rightarrow> 'a tree" where
  "plug [] t = t"
| "plug (f # c) t = plug c (fill f t)"

fun frame_item :: "'a frame \<Rightarrow> 'a" where
  "frame_item (InL x r) = x"
| "frame_item (InR l x) = x"

fun before :: "'a frame list \<Rightarrow> 'a list" where
  "before [] = []"
| "before (InL x r # c) = before c"
| "before (InR l x # c) = before c @ inorder l @ [x]"

fun after :: "'a frame list \<Rightarrow> 'a list" where
  "after [] = []"
| "after (InL x r # c) = x # inorder r @ after c"
| "after (InR l x # c) = after c"

fun hole_parent :: "addr option \<Rightarrow> (addr \<times> 'k \<times> 'v) frame list \<Rightarrow> addr option" where
  "hole_parent p [] = p"
| "hole_parent p (f # c) = Some (fst (frame_item f))"

fun frame_at ::
  "(addr \<Rightarrow> ('k, 'v) node option) \<Rightarrow> addr option \<Rightarrow> (addr \<times> 'k \<times> 'v) frame \<Rightarrow> addr option \<Rightarrow> bool"
  where
  "frame_at m p (InL x r) c =
     (m (fst x) = Some \<lparr>right = ptr r, left = c, parent = p, val = snd x\<rparr> \<and>
      tree_at m (Some (fst x)) r)"
| "frame_at m p (InR l x) c =
     (m (fst x) = Some \<lparr>right = c, left = ptr l, parent = p, val = snd x\<rparr> \<and>
      tree_at m (Some (fst x)) l)"

fun ctx_at ::
  "(addr \<Rightarrow> ('k, 'v) node option) \<Rightarrow> addr option \<Rightarrow> (addr \<times> 'k \<times> 'v) frame list \<Rightarrow>
     addr option \<Rightarrow> bool" where
  "ctx_at m p [] c = True"
| "ctx_at m p (f # cs) c =
     (frame_at m (hole_parent p cs) f c \<and> ctx_at m p cs (Some (fst (frame_item f))))"

definition ctx_addrs :: "(addr \<times> 'k \<times> 'v) frame list \<Rightarrow> addr list" where
  "ctx_addrs c = map fst (before c @ after c)"

fun fits :: "('k \<Rightarrow> 'k \<Rightarrow> bool) \<Rightarrow> (addr \<times> 'k \<times> 'v) frame list \<Rightarrow> 'k \<Rightarrow> bool" where
  "fits op [] k = True"
| "fits op (InL x r # c) k = (op k (fst (snd x)) \<and> fits op c k)"
| "fits op (InR l x # c) k = (op (fst (snd x)) k \<and> fits op c k)"

definition insert_next ::
  "nat \<Rightarrow> ('k \<Rightarrow> 'k \<Rightarrow> bool) \<Rightarrow> 'k \<times> 'v \<Rightarrow> ('k, 'v) bst \<Rightarrow>
     (addr, addr \<times> ('k, 'v) heap) pass option \<Rightarrow> ((iterator \<times> bool) \<times> ('k, 'v) bst) option" where
  "insert_next stk op x s res =
     (case res of
        None \<Rightarrow> None
      | Some (Return (b, h1)) \<Rightarrow> Some ((Some b, True), s\<lparr>heap := h1\<rparr>)
      | Some (Again t) \<Rightarrow> insert_loop stk op x s (Some t))"

text \<open>The node of the innermost frame gets a new child in the place of the hole.\<close>

fun repoint ::
  "addr option \<Rightarrow> (addr \<times> 'k \<times> 'v) frame list \<Rightarrow> addr option \<Rightarrow> ('k, 'v) node option" where
  "repoint p [] y = None"
| "repoint p (InL z rz # cs) y =
     Some \<lparr>right = ptr rz, left = y, parent = hole_parent p cs, val = snd z\<rparr>"
| "repoint p (InR lz z # cs) y =
     Some \<lparr>right = y, left = ptr lz, parent = hole_parent p cs, val = snd z\<rparr>"

fun ctx_next :: "(addr \<times> 'k \<times> 'v) frame list \<Rightarrow> addr option" where
  "ctx_next [] = None"
| "ctx_next (InL z rz # c) = Some (fst z)"
| "ctx_next (InR lz z # c) = ctx_next c"

fun first_addr :: "('k, 'v) ntree \<Rightarrow> addr" where
  "first_addr Tip = 0"
| "first_addr (Fork l x r) = (case l of Tip \<Rightarrow> fst x | Fork ll y lr \<Rightarrow> first_addr l)"

text \<open>
  The tree that the median-first insertions build from a list: the element in the middle
  at the root, over the trees of the two halves.
\<close>

fun build :: "'a list \<Rightarrow> 'a tree" where
  "build xs =
     (if xs = [] then Tip
      else Fork (build (take (length xs div 2) xs)) (xs ! (length xs div 2))
             (build (drop (Suc (length xs div 2)) xs)))"

definition slice :: "'a list \<Rightarrow> nat \<Rightarrow> nat \<Rightarrow> 'a list" where
  "slice xs i j = take (j - i) (drop i xs)"

fun is_InL :: "'a frame \<Rightarrow> bool" where
  "is_InL (InL z rz) = True"
| "is_InL (InR lz z) = False"

text \<open>
  A tree of \<open>n\<close> entries with the keys \<open>0, \<dots>, n - 1\<close>, each node the right child of the
  one before: the state \<open>spine n\<close>, which holds the tree \<open>chain n n\<close>. It is the tree that
  \<^verbatim>\<open>insert\<close> builds from the keys in ascending order.
\<close>

definition spine_node :: "nat \<Rightarrow> nat \<Rightarrow> (int, unit) node" where
  "spine_node n i =
     \<lparr>right = (if Suc i < n then Some (Suc i) else None), left = None,
      parent = (if i = 0 then None else Some (i - 1)), val = (int i, ())\<rparr>"

definition spine :: "nat \<Rightarrow> (int, unit) bst" where
  "spine n =
     \<lparr>root = (if n = 0 then None else Some 0), heap = map (\<lambda>i. Some (spine_node n i)) [0..<n]\<rparr>"

primrec chain :: "nat \<Rightarrow> nat \<Rightarrow> (int, unit) ntree" where
  "chain n 0 = Tip"
| "chain n (Suc k) = Fork Tip (n - Suc k, int (n - Suc k), ()) (chain n k)"

section \<open>Comparators and example trees\<close>

text \<open>
  The precondition on the comparator, a strict weak ordering: irreflexive, transitive, and
  being unordered either way is transitive. The theorems below use what they need of it:
  that the comparator is asymmetric and transitive.
\<close>

definition strict_weak_ordering :: "('k \<Rightarrow> 'k \<Rightarrow> bool) \<Rightarrow> bool" where
  "strict_weak_ordering op =
     ((\<forall>a. \<not> op a a) \<and> (\<forall>a b c. op a b \<longrightarrow> op b c \<longrightarrow> op a c) \<and>
      (\<forall>a b c. \<not> op a b \<longrightarrow> \<not> op b a \<longrightarrow> \<not> op b c \<longrightarrow> \<not> op c b \<longrightarrow> \<not> op a c \<and> \<not> op c a))"

text \<open>
  A comparator under which different keys can be equivalent: integers ordered by their
  absolute value. \<open>3\<close> and \<open>- 3\<close> are unordered either way.
\<close>

definition abs_less :: "int \<Rightarrow> int \<Rightarrow> bool" where
  "abs_less a b = (\<bar>a\<bar> < \<bar>b\<bar>)"

text \<open>The tree with the single entry \<open>(3, ''a'')\<close>, as \<^verbatim>\<open>insert\<close> builds it.\<close>

definition ex_one :: "(int, string) bst" where
  "ex_one = \<lparr>root = Some 0, heap = [Some \<lparr>right = None, left = None, parent = None, val = (3, ''a'')\<rparr>]\<rparr>"

definition ex_one_tree :: "(int, string) ntree" where
  "ex_one_tree = Fork Tip (0, 3, ''a'') Tip"

text \<open>
  The tree that the insertions of the keys 5, 3, 8, 1, 4, 7, 9 build, under \<open>(<)\<close>.
\<close>

definition ex_bst :: "(int, string) bst" where
  "ex_bst =
     \<lparr>root = Some 0,
      heap =
        [Some \<lparr>right = Some 2, left = Some 1, parent = None, val = (5, ''a'')\<rparr>,
         Some \<lparr>right = Some 4, left = Some 3, parent = Some 0, val = (3, ''b'')\<rparr>,
         Some \<lparr>right = Some 6, left = Some 5, parent = Some 0, val = (8, ''c'')\<rparr>,
         Some \<lparr>right = None, left = None, parent = Some 1, val = (1, ''d'')\<rparr>,
         Some \<lparr>right = None, left = None, parent = Some 1, val = (4, ''e'')\<rparr>,
         Some \<lparr>right = None, left = None, parent = Some 2, val = (7, ''f'')\<rparr>,
         Some \<lparr>right = None, left = None, parent = Some 2, val = (9, ''g'')\<rparr>]\<rparr>"

definition ex_tree :: "(int, string) ntree" where
  "ex_tree =
     Fork (Fork (Fork Tip (3, 1, ''d'') Tip) (1, 3, ''b'') (Fork Tip (4, 4, ''e'') Tip))
       (0, 5, ''a'')
       (Fork (Fork Tip (5, 7, ''f'') Tip) (2, 8, ''c'') (Fork Tip (6, 9, ''g'') Tip))"

text \<open>The output operator of \<^verbatim>\<open>int\<close> keys: decimal digits, with a minus sign if negative.\<close>

fun show_nat :: "nat \<Rightarrow> string" where
  "show_nat n =
     (if n < 10 then [''0123456789'' ! n]
      else show_nat (n div 10) @ [''0123456789'' ! (n mod 10)])"

definition show_int :: "int \<Rightarrow> string" where
  "show_int i = (if i < 0 then ''-'' @ show_nat (nat (- i)) else show_nat (nat i))"

declare show_nat.simps [simp del]

declare find_loop.simps [code] insert_loop.simps [code]
  leftmost.simps [code] erase.simps [code] ascend.simps [code] for_range.simps [code]
  priv_balance.simps [code] snapshot.simps [code]

declare destroy.simps [simp del] copy_node.simps [simp del]

section \<open>Memory, trees and contexts\<close>

subsection \<open>Memory\<close>

lemma deref_Some_less: "deref h a = Some n \<Longrightarrow> a < length h"
  by (simp add: deref_def split: if_splits)

lemma deref_length [simp]: "deref h (length h) = None"
  by (simp add: deref_def)

lemma deref_update: "deref (h[a := y]) = (if a < length h then (deref h)(a := y) else deref h)"
  by (auto simp: deref_def fun_eq_iff)

lemma deref_snoc [simp]: "deref (h @ [y]) = (deref h)(length h := y)"
  by (auto simp: deref_def fun_eq_iff nth_append)

lemma deref_store [simp]: "deref h a = Some n0 \<Longrightarrow> deref (h[a := y]) = (deref h)(a := y)"
  by (simp add: deref_update deref_Some_less)

lemma store_Some [simp]: "deref h a = Some n0 \<Longrightarrow> store h a n = Some (h[a := Some n])"
  by (simp add: store_def)

lemma deref_free [simp]: "deref h a = Some n0 \<Longrightarrow> deref (free h a) = (deref h)(a := None)"
  by (simp add: free_def)

subsection \<open>Trees in memory\<close>

lemma tree_at_frame:
  "tree_at m p t \<Longrightarrow> (\<And>a. a \<in> set (addrs t) \<Longrightarrow> m' a = m a) \<Longrightarrow> tree_at m' p t"
  by (induction t arbitrary: p) (auto simp: addrs_def)

lemma tree_at_upd [simp]: "a \<notin> set (addrs t) \<Longrightarrow> tree_at (m(a := y)) p t = tree_at m p t"
  by (induction t arbitrary: p) (auto simp: addrs_def)

lemma addrs_simps [simp]:
  "addrs Tip = []" "addrs (Fork l x r) = addrs l @ fst x # addrs r"
  by (simp_all add: addrs_def)

lemma tree_at_live: "tree_at m p t \<Longrightarrow> a \<in> set (addrs t) \<Longrightarrow> m a \<noteq> None"
  by (induction t arbitrary: p) auto

lemma tree_at_fresh: "tree_at (deref h) p t \<Longrightarrow> length h \<notin> set (addrs t)"
  using tree_at_live [of "deref h" p t "length h"] by auto

lemma keys_of_simps [simp]:
  "keys_of Tip = []" "keys_of (Fork l x r) = keys_of l @ fst (snd x) # keys_of r"
  by (simp_all add: keys_of_def)

lemma entries_of_simps [simp]:
  "entries_of Tip = []" "entries_of (Fork l x r) = entries_of l @ snd x # entries_of r"
  by (simp_all add: entries_of_def)

lemma ptr_in_addrs: "ptr t = Some a \<Longrightarrow> a \<in> set (addrs t)"
  by (cases t) auto

lemma ptr_None_iff [simp]: "ptr t = None \<longleftrightarrow> t = Tip"
  by (cases t) auto

subsection \<open>Contexts\<close>

lemma plug_append: "plug (c1 @ c2) t = plug c2 (plug c1 t)"
  by (induction c1 arbitrary: t) auto

lemma fill_neq_Tip [simp]: "fill f t \<noteq> Tip"
  by (cases f) auto

lemma plug_Tip_iff [simp]: "plug c t = Tip \<longleftrightarrow> c = [] \<and> t = Tip"
  by (induction c arbitrary: t) auto

lemma inorder_plug: "inorder (plug c t) = before c @ inorder t @ after c"
proof (induction c arbitrary: t)
  case Nil
  show ?case by simp
next
  case (Cons f c)
  show ?case by (cases f) (simp_all add: Cons)
qed

lemma before_append: "before (c1 @ c2) = before c2 @ before c1"
proof (induction c1)
  case Nil
  show ?case by simp
next
  case (Cons f c)
  show ?case by (cases f) (simp_all add: Cons)
qed

lemma after_append: "after (c1 @ c2) = after c1 @ after c2"
proof (induction c1)
  case Nil
  show ?case by simp
next
  case (Cons f c)
  show ?case by (cases f) (simp_all add: Cons)
qed

lemma addrs_plug: "addrs (plug c t) = map fst (before c) @ addrs t @ map fst (after c)"
  by (simp add: addrs_def inorder_plug)

lemma tree_at_fill:
  "tree_at m p (fill f t) = (frame_at m p f (ptr t) \<and> tree_at m (Some (fst (frame_item f))) t)"
  by (cases f) auto

lemma ptr_fill [simp]: "ptr (fill f t) = Some (fst (frame_item f))"
  by (cases f) auto

lemma tree_at_plug:
  "tree_at m p (plug c t) = (ctx_at m p c (ptr t) \<and> tree_at m (hole_parent p c) t)"
proof (induction c arbitrary: t)
  case Nil
  show ?case by simp
next
  case (Cons f c)
  show ?case by (auto simp: Cons tree_at_fill)
qed

lemma frame_at_upd [simp]:
  "a \<noteq> fst (frame_item f) \<Longrightarrow> a \<notin> set (map fst (before [f] @ after [f])) \<Longrightarrow>
    frame_at (m(a := y)) p f c = frame_at m p f c"
  by (cases f) (auto simp: addrs_def)

lemma ctx_addrs_Cons:
  "set (ctx_addrs (f # c)) = insert (fst (frame_item f)) (set (map fst (before [f] @ after [f])) \<union> set (ctx_addrs c))"
  by (cases f) (auto simp: ctx_addrs_def)

lemma set_ctx_addrs [simp]:
  "set (ctx_addrs []) = {}"
  "set (ctx_addrs (InL z rz # c)) = insert (fst z) (set (addrs rz) \<union> set (ctx_addrs c))"
  "set (ctx_addrs (InR lz z # c)) = insert (fst z) (set (addrs lz) \<union> set (ctx_addrs c))"
  by (auto simp: ctx_addrs_def addrs_def)

lemma distinct_ctx_addrs [simp]:
  "distinct (ctx_addrs [])"
  "distinct (ctx_addrs (InL z rz # c)) =
    (fst z \<notin> set (addrs rz) \<and> fst z \<notin> set (ctx_addrs c) \<and> distinct (addrs rz) \<and>
     distinct (ctx_addrs c) \<and> set (addrs rz) \<inter> set (ctx_addrs c) = {})"
  "distinct (ctx_addrs (InR lz z # c)) =
    (fst z \<notin> set (addrs lz) \<and> fst z \<notin> set (ctx_addrs c) \<and> distinct (addrs lz) \<and>
     distinct (ctx_addrs c) \<and> set (addrs lz) \<inter> set (ctx_addrs c) = {})"
  by (auto simp: ctx_addrs_def addrs_def)

lemma set_addrs_plug [simp]: "set (addrs (plug c t)) = set (ctx_addrs c) \<union> set (addrs t)"
  by (auto simp: addrs_plug ctx_addrs_def)

lemma distinct_addrs_plug [simp]:
  "distinct (addrs (plug c t)) =
    (distinct (ctx_addrs c) \<and> distinct (addrs t) \<and> set (ctx_addrs c) \<inter> set (addrs t) = {})"
  by (auto simp: addrs_plug ctx_addrs_def)

lemma ctx_at_upd [simp]: "a \<notin> set (ctx_addrs c) \<Longrightarrow> ctx_at (m(a := y)) p c x = ctx_at m p c x"
proof (induction c arbitrary: x)
  case Nil
  show ?case by simp
next
  case (Cons f c)
  from Cons.prems have 1: "a \<notin> set (ctx_addrs c)" and 2: "a \<noteq> fst (frame_item f)"
    and 3: "a \<notin> set (map fst (before [f] @ after [f]))"
    by (simp_all add: ctx_addrs_Cons)
  show ?case
    by (simp only: ctx_at.simps Cons.IH [OF 1] frame_at_upd [OF 2 3])
qed

lemma in_tree_plug:
  "(a, e) \<in> set (inorder t) \<Longrightarrow> \<exists>c l r. t = plug c (Fork l (a, e) r)"
proof (induction t)
  case Tip
  then show ?case by simp
next
  case (Fork l x r)
  consider "x = (a, e)" | "(a, e) \<in> set (inorder l)" | "(a, e) \<in> set (inorder r)"
    using Fork.prems by auto
  then show ?case
  proof cases
    case 1
    then have "Fork l x r = plug [] (Fork l (a, e) r)" by simp
    then show ?thesis by blast
  next
    case 2
    then obtain c l' r' where "l = plug c (Fork l' (a, e) r')"
      using Fork.IH(1) by blast
    then have "Fork l x r = plug (c @ [InL x r]) (Fork l' (a, e) r')"
      by (simp add: plug_append)
    then show ?thesis by blast
  next
    case 3
    then obtain c l' r' where "r = plug c (Fork l' (a, e) r')"
      using Fork.IH(2) by blast
    then have "Fork l x r = plug (c @ [InR l x]) (Fork l' (a, e) r')"
      by (simp add: plug_append)
    then show ?thesis by blast
  qed
qed

subsection \<open>Searching\<close>

lemma find_loop_frame:
  assumes "asymp op" and "tree_at (deref h) p (fill f t)" and "fits op [f] k"
  shows "find_loop op h k (Some (fst (frame_item f))) = find_loop op h k (ptr t)"
proof (cases f)
  case (InL x r)
  with assms have "op k (fst (snd x))" and "fst (snd x) \<noteq> k"
    by (auto dest: asympD)
  with assms InL show ?thesis
    by (subst find_loop.simps) simp
next
  case (InR l x)
  with assms have "op (fst (snd x)) k" and "fst (snd x) \<noteq> k" and "\<not> op k (fst (snd x))"
    by (auto dest: asympD)
  with assms InR show ?thesis
    by (subst find_loop.simps) simp
qed

lemma fits_ConsD: "fits op (f # c) k \<Longrightarrow> fits op [f] k \<and> fits op c k"
  by (cases f) auto

lemma find_loop_plug:
  assumes "asymp op"
  shows "tree_at (deref h) p (plug c t) \<Longrightarrow> fits op c k \<Longrightarrow>
    find_loop op h k (ptr (plug c t)) = find_loop op h k (ptr t)"
proof (induction c arbitrary: t)
  case Nil
  show ?case by simp
next
  case (Cons f c)
  from Cons.prems have t: "tree_at (deref h) p (plug c (fill f t))" and fc: "fits op c k"
    and ff: "fits op [f] k"
    by (auto dest: fits_ConsD)
  from t have "tree_at (deref h) (hole_parent p c) (fill f t)"
    by (simp add: tree_at_plug)
  then have "find_loop op h k (Some (fst (frame_item f))) = find_loop op h k (ptr t)"
    using find_loop_frame [OF assms _ ff] by blast
  then show ?case
    using Cons.IH [OF t fc] by simp
qed

lemma find_present:
  assumes "asymp op"
  shows "tree_at (deref h) p t \<Longrightarrow> bst_ord op t \<Longrightarrow> (a, k, v) \<in> set (inorder t) \<Longrightarrow>
    find_loop op h k (ptr t) = Some (Some a)"
proof (induction t arbitrary: p)
  case Tip
  then show ?case by simp
next
  case (Fork l x r)
  obtain b kx vx where x: "x = (b, kx, vx)" by (cases x)
  show ?case
    using Fork assms
    by (subst find_loop.simps) (auto simp: x keys_of_def dest: asympD)
qed

subsection \<open>Inserting\<close>

lemma insert_loop_Some:
  "insert_loop stk op x s (Some a) = insert_next stk op x s (insert_body op x (heap s) a)"
  by (subst insert_loop.simps) (simp add: insert_next_def split: option.splits pass.splits)

lemma insert_loop_stuck:
  assumes "deref (heap s) a = Some n" and "\<not> op (fst (val n)) (fst x)"
    and "\<not> op (fst x) (fst (val n))"
  shows "insert_loop stk op x s (Some a) = None"
proof -
  have body: "insert_body op x (heap s) a = Some (Again a)"
    using assms by (simp add: insert_body_def insert_second_def)
  have "insert_loop stk op x s (Some a) \<noteq> Some y" for y
  proof
    assume run: "insert_loop stk op x s (Some a) = Some y"
    have "\<not> (op = op \<and> x = x \<and> s = s \<and> Some a = Some a)"
      apply (rule insert_loop.raw_induct [where xa = "((((stk, op), x), s), Some a)" and y = y and
        P = "\<lambda>stk' op' x' s' tmp y. \<not> (op' = op \<and> x' = x \<and> s' = s \<and> tmp = Some a)",
        unfolded prod.case])
      subgoal premises prems for f stk' op' x' s' tmp y'
      proof
        assume eq: "op' = op \<and> x' = x \<and> s' = s \<and> tmp = Some a"
        with prems(2) body have "f stk' op x s (Some a) = Some y'"
          by simp
        from prems(1) [OF this] show False
          by simp
      qed
      by (rule run)
    then show False
      by simp
  qed
  then show ?thesis
    by (cases "insert_loop stk op x s (Some a)") auto
qed

lemma insert_loop_left_Some:
  assumes "asymp op" and "deref (heap s) a = Some n" and "op (fst x) (fst (val n))"
    and "left n = Some l"
  shows "insert_loop stk op x s (Some a) = insert_loop stk op x s (Some l)"
proof -
  from assms have "\<not> op (fst (val n)) (fst x)"
    by (auto dest: asympD)
  with assms have "insert_body op x (heap s) a = Some (Again l)"
    by (simp add: insert_body_def insert_second_def)
  then show ?thesis
    by (simp add: insert_loop_Some [of stk op x s a] insert_next_def)
qed

lemma insert_loop_right_Some:
  assumes "asymp op" and "deref (heap s) a = Some n" and "op (fst (val n)) (fst x)"
    and "right n = Some r" and "deref (heap s) r = Some nr"
  shows "insert_loop stk op x s (Some a) = insert_loop stk op x s (Some r)"
proof -
  from assms have a: "insert_body op x (heap s) a = insert_second op x (heap s) r"
    by (simp add: insert_body_def)
  show ?thesis
  proof (cases "op (fst x) (fst (val nr))")
    case True
    with assms have "\<not> op (fst (val nr)) (fst x)"
      by (auto dest: asympD)
    with assms have "insert_body op x (heap s) r = insert_second op x (heap s) r"
      by (simp add: insert_body_def)
    with a show ?thesis
      by (simp add: insert_loop_Some)
  next
    case False
    with assms have "insert_second op x (heap s) r = Some (Again r)"
      by (simp add: insert_second_def)
    with a show ?thesis
      by (simp add: insert_loop_Some [of stk op x s a] insert_next_def)
  qed
qed

lemma insert_loop_left_None:
  assumes "asymp op" and "deref (heap s) a = Some n" and "op (fst x) (fst (val n))"
    and "left n = None"
  shows "insert_loop stk op x s (Some a) =
    Some ((Some (length (heap s)), True),
      s\<lparr>heap := (heap s @ [Some (node2 x (Some a))])[a := Some (n\<lparr>left := Some (length (heap s))\<rparr>)]\<rparr>)"
proof -
  from assms have "\<not> op (fst (val n)) (fst x)"
    by (auto dest: asympD)
  with assms have "insert_body op x (heap s) a =
      Some (Return (length (heap s),
        (heap s @ [Some (node2 x (Some a))])[a := Some (n\<lparr>left := Some (length (heap s))\<rparr>)]))"
    using deref_Some_less [OF assms(2)]
    by (simp add: insert_body_def insert_second_def attach_left_def new_def store_def)
  then show ?thesis
    by (simp add: insert_loop_Some [of stk op x s a] insert_next_def)
qed

lemma insert_loop_right_None:
  assumes "deref (heap s) a = Some n" and "op (fst (val n)) (fst x)"
    and "right n = None"
  shows "insert_loop stk op x s (Some a) =
    Some ((Some (length (heap s)), True),
      s\<lparr>heap := (heap s @ [Some (node2 x (Some a))])[a := Some (n\<lparr>right := Some (length (heap s))\<rparr>)]\<rparr>)"
proof -
  from assms have "insert_body op x (heap s) a =
      Some (Return (length (heap s),
        (heap s @ [Some (node2 x (Some a))])[a := Some (n\<lparr>right := Some (length (heap s))\<rparr>)]))"
    using deref_Some_less [OF assms(1)]
    by (simp add: insert_body_def attach_right_def new_def store_def)
  then show ?thesis
    by (simp add: insert_loop_Some [of stk op x s a] insert_next_def)
qed

lemma insert_loop_frame:
  assumes "asymp op" and "tree_at (deref (heap s)) p (fill f t)" and "fits op [f] (fst x)"
    and "t \<noteq> Tip"
  shows "insert_loop stk op x s (Some (fst (frame_item f))) = insert_loop stk op x s (ptr t)"
proof -
  obtain l y r where t: "t = Fork l y r"
    using assms(4) by (cases t) auto
  show ?thesis
  proof (cases f)
    case (InL z rz)
    with assms t show ?thesis
      using insert_loop_left_Some [OF assms(1), of s "fst z" _ x "fst y"] by auto
  next
    case (InR lz z)
    with assms t show ?thesis
      using insert_loop_right_Some [OF assms(1), of s "fst z" _ x "fst y"] by auto
  qed
qed

lemma insert_loop_plug:
  assumes "asymp op"
  shows "tree_at (deref (heap s)) p (plug c t) \<Longrightarrow> fits op c (fst x) \<Longrightarrow> t \<noteq> Tip \<Longrightarrow>
    insert_loop stk op x s (ptr (plug c t)) = insert_loop stk op x s (ptr t)"
proof (induction c arbitrary: t)
  case Nil
  show ?case by simp
next
  case (Cons f c)
  from Cons.prems have t: "tree_at (deref (heap s)) p (plug c (fill f t))"
    and fc: "fits op c (fst x)" and ff: "fits op [f] (fst x)"
    by (auto dest: fits_ConsD)
  from t have "tree_at (deref (heap s)) (hole_parent p c) (fill f t)"
    by (simp add: tree_at_plug)
  then have "insert_loop stk op x s (Some (fst (frame_item f))) = insert_loop stk op x s (ptr t)"
    using insert_loop_frame [OF assms _ ff Cons.prems(3)] by blast
  moreover have "fill f t \<noteq> Tip"
    by (cases f) auto
  ultimately show ?case
    using Cons.IH [OF t fc] by simp
qed

lemma ptr_plug: "ptr (plug (f # c) t) = ptr (plug (f # c) t')"
proof (induction c arbitrary: f t t')
  case Nil
  show ?case by simp
next
  case (Cons g c)
  show ?case
    using Cons [of g "fill f t" "fill f t'"] by simp
qed

lemma tree_at_cong:
  "(\<And>a. a \<in> set (addrs t) \<Longrightarrow> m' a = m a) \<Longrightarrow> tree_at m' p t = tree_at m p t"
  using tree_at_frame [of m p t m'] tree_at_frame [of m' p t m] by auto

lemma frame_at_cong:
  "(\<And>a. a \<in> set (ctx_addrs [f]) \<Longrightarrow> m' a = m a) \<Longrightarrow> frame_at m' q f x = frame_at m q f x"
  by (cases f) (simp_all add: tree_at_cong [of _ m' m])

lemma ctx_at_cong:
  "(\<And>a. a \<in> set (ctx_addrs c) \<Longrightarrow> m' a = m a) \<Longrightarrow> ctx_at m' p c x = ctx_at m p c x"
proof (induction c arbitrary: x)
  case Nil
  show ?case by simp
next
  case (Cons f c)
  have 1: "ctx_at m' p c y = ctx_at m p c y" for y
    using Cons.prems by (intro Cons.IH) (cases f; simp)
  have 2: "frame_at m' q f x = frame_at m q f x" for q
    using Cons.prems by (intro frame_at_cong) (cases f; auto)
  show ?case by (simp add: 1 2)
qed

lemma ctx_at_repoint:
  assumes "ctx_at m p (f # cs) x" and "distinct (ctx_addrs (f # cs))"
    and "\<And>a. a \<in> set (ctx_addrs (f # cs)) \<Longrightarrow> a \<noteq> fst (frame_item f) \<Longrightarrow> m' a = m a"
    and "m' (fst (frame_item f)) = repoint p (f # cs) y"
  shows "ctx_at m' p (f # cs) y"
proof -
  have cs: "ctx_at m' p cs z = ctx_at m p cs z" for z
    using assms(2,3) by (intro ctx_at_cong) (cases f; auto)
  show ?thesis
  proof (cases f)
    case (InL z rz)
    have "tree_at m' (Some (fst z)) rz = tree_at m (Some (fst z)) rz"
      using assms(2,3) by (intro tree_at_cong) (auto simp: InL)
    with assms(1,4) show ?thesis
      by (simp add: InL cs)
  next
    case (InR lz z)
    have "tree_at m' (Some (fst z)) lz = tree_at m (Some (fst z)) lz"
      using assms(2,3) by (intro tree_at_cong) (auto simp: InR)
    with assms(1,4) show ?thesis
      by (simp add: InR cs)
  qed
qed

lemma ctx_at_node:
  "ctx_at m p (f # cs) x \<Longrightarrow> m (fst (frame_item f)) = repoint p (f # cs) x"
  by (cases f) auto

lemma wf_plug:
  "wf s (plug c t) =
    (root s = ptr (plug c t) \<and> ctx_at (deref (heap s)) None c (ptr t) \<and>
     tree_at (deref (heap s)) (hole_parent None c) t \<and>
     distinct (ctx_addrs c) \<and> distinct (addrs t) \<and> set (ctx_addrs c) \<inter> set (addrs t) = {})"
  by (auto simp: wf_def tree_at_plug)

lemma ctx_at_live: "ctx_at m p c x \<Longrightarrow> a \<in> set (ctx_addrs c) \<Longrightarrow> m a \<noteq> None"
proof (induction c arbitrary: x)
  case Nil
  then show ?case by simp
next
  case (Cons f c)
  then show ?case
    using tree_at_live [of m]
    by (cases f) auto
qed

lemma priv_find_hole:
  assumes "asymp op" and "wf s (plug c Tip)" and "fits op c k"
  shows "priv_find op s k = Some None"
proof -
  from assms(2) have "tree_at (deref (heap s)) None (plug c Tip)" and "root s = ptr (plug c Tip)"
    by (simp_all add: wf_def)
  with find_loop_plug [OF assms(1) _ assms(3), of "heap s" None Tip]
  have "find_loop op (heap s) k (root s) = Some None"
    by (simp add: find_loop.simps)
  then show ?thesis
    by (simp add: priv_find_def)
qed

lemma insert_hole:
  assumes "asymp op" and "wf s (plug c Tip)" and "fits op c (fst x)"
  shows "\<exists>s'. insert_bst stk op x s = Some ((Some (length (heap s)), True), s') \<and>
    wf s' (plug c (Fork Tip (length (heap s), x) Tip)) \<and>
    length (heap s') = Suc (length (heap s))"
proof (cases c)
  case Nil
  with assms(2) have "root s = None"
    by (simp add: wf_def)
  then show ?thesis
    by (simp add: insert_bst_def priv_insert_def priv_find_def insert_loop.simps new_def
        reset_def wf_def Nil node2_def)
next
  case (Cons f cs)
  let ?b = "length (heap s)"
  let ?q = "fst (frame_item f)"
  let ?m = "deref (heap s)"
  from assms(2) have r: "root s = ptr (plug c Tip)" and c: "ctx_at ?m None c None"
    and d: "distinct (ctx_addrs c)"
    by (simp_all add: wf_plug)
  from assms(2) have t: "tree_at ?m None (plug cs (fill f Tip))"
    by (simp add: wf_def Cons)
  then have tf: "tree_at ?m (hole_parent None cs) (fill f Tip)"
    by (simp add: tree_at_plug)
  from assms(3) have ff: "fits op [f] (fst x)" and fc: "fits op cs (fst x)"
    by (auto simp: Cons dest: fits_ConsD)
  have "fill f Tip \<noteq> Tip"
    by (cases f) auto
  from insert_loop_plug [OF assms(1) t fc this]
  have loop: "insert_loop stk op x s (root s) = insert_loop stk op x s (Some ?q)"
    by (simp add: r Cons)
  have q: "?m ?q = repoint None c None"
    using c by (simp add: Cons ctx_at_node)
  have fresh: "?b \<notin> set (ctx_addrs c)"
    using ctx_at_live [OF c, of ?b] by auto
  obtain n where n: "?m ?q = Some n"
    using q by (cases f) (auto simp: Cons)
  define h' where "h' = (heap s @ [Some (node2 x (Some ?q))])[?q := repoint None c (Some ?b)]"
  have "insert_loop stk op x s (Some ?q) = Some ((Some ?b, True), s\<lparr>heap := h'\<rparr>)"
  proof (cases f)
    case (InL z rz)
    with ff q n have "op (fst x) (fst (val n))" "left n = None"
      "n\<lparr>left := Some ?b\<rparr> = the (repoint None c (Some ?b))"
      by (auto simp: Cons)
    with insert_loop_left_None [OF assms(1), of s ?q n x] q n show ?thesis
      by (simp add: h'_def InL Cons)
  next
    case (InR lz z)
    with ff q n have "op (fst (val n)) (fst x)" "right n = None"
      "n\<lparr>right := Some ?b\<rparr> = the (repoint None c (Some ?b))"
      by (auto simp: Cons)
    with insert_loop_right_None [of s ?q n op x] q n show ?thesis
      by (simp add: h'_def InR Cons)
  qed
  moreover have "priv_find op s (fst x) = Some None"
    by (rule priv_find_hole [OF assms])
  ultimately have ins: "insert_bst stk op x s = Some ((Some ?b, True), s\<lparr>heap := h'\<rparr>)"
    by (simp add: insert_bst_def priv_insert_def loop)
  have m': "deref h' = (?m(?b \<mapsto> node2 x (Some ?q)))(?q := repoint None c (Some ?b))"
    using n deref_Some_less [of "heap s" ?q n]
    by (simp add: h'_def deref_update)
  have qb: "?q \<noteq> ?b"
    using n by auto
  have "ctx_at (deref h') None c (Some ?b)"
    unfolding Cons
  proof (rule ctx_at_repoint)
    show "ctx_at ?m None (f # cs) None"
      using c by (simp add: Cons)
    show "distinct (ctx_addrs (f # cs))"
      using d by (simp add: Cons)
    show "deref h' a = ?m a" if "a \<in> set (ctx_addrs (f # cs))" "a \<noteq> ?q" for a
      using that fresh by (auto simp: m' Cons)
    show "deref h' ?q = repoint None (f # cs) (Some ?b)"
      by (simp add: m' Cons)
  qed
  moreover have "tree_at (deref h') (hole_parent None c) (Fork Tip (?b, x) Tip)"
    using qb by (simp add: m' Cons node2_def)
  moreover have "root s = ptr (plug c (Fork Tip (?b, x) Tip))"
    using r ptr_plug [of f cs] by (simp add: Cons)
  ultimately have "wf (s\<lparr>heap := h'\<rparr>) (plug c (Fork Tip (?b, x) Tip))"
    using d fresh by (simp add: wf_plug)
  moreover have "length h' = Suc ?b"
    by (simp add: h'_def)
  ultimately show ?thesis
    using ins by simp
qed

subsection \<open>Iterating\<close>

lemma for_range_None [simp]: "for_range h None f acc = Some acc"
  by (subst for_range.simps) simp

lemma leftmost_tree:
  "tree_at (deref h) p t \<Longrightarrow> ptr t = Some a \<Longrightarrow> leftmost h a = Some (first_addr t)"
proof (induction t arbitrary: p a)
  case Tip
  then show ?case by simp
next
  case (Fork l x r)
  show ?case
  proof (cases l)
    case Tip
    with Fork.prems show ?thesis
      by (subst leftmost.simps) simp
  next
    case (Fork ll y lr)
    with Fork.prems Fork.IH(1) [of "Some (fst x)" "fst y"] show ?thesis
      by (subst leftmost.simps) simp
  qed
qed

lemma ascend_ctx:
  "tree_at (deref h) None (plug c t) \<Longrightarrow> distinct (addrs (plug c t)) \<Longrightarrow> ptr t = Some a \<Longrightarrow>
    ascend h a = Some (ctx_next c)"
proof (induction c arbitrary: t a)
  case Nil
  then obtain l x r where "t = Fork l x r"
    by (cases t) auto
  with Nil show ?case
    by (subst ascend.simps) simp
next
  case (Cons f c)
  obtain l x r where t: "t = Fork l x r"
    using Cons.prems(3) by (cases t) auto
  with Cons.prems have a: "a = fst x"
    by simp
  from Cons.prems(1) have c: "ctx_at (deref h) None (f # c) (Some a)"
    and ta: "tree_at (deref h) (Some (fst (frame_item f))) t"
    by (simp_all add: tree_at_plug tree_at_fill t a)
  from ta have da: "deref h a = Some \<lparr>right = ptr r, left = ptr l,
      parent = Some (fst (frame_item f)), val = snd x\<rparr>"
    by (simp add: t a)
  show ?case
  proof (cases f)
    case (InL z rz)
    from Cons.prems(2) have "a \<notin> set (addrs rz)"
      by (auto simp: InL t a)
    then have "ptr rz \<noteq> Some a"
      using ptr_in_addrs by blast
    with c da show ?thesis
      by (subst ascend.simps) (simp add: InL)
  next
    case (InR lz z)
    have "ascend h (fst z) = Some (ctx_next c)"
      using Cons.IH [of "fill f t" "fst z"] Cons.prems(1,2)
      by (simp add: InR)
    with c da show ?thesis
      by (subst ascend.simps) (simp add: InR)
  qed
qed

lemma for_range_Some:
  assumes "deref h a = Some n" and "increment h a = Some nxt"
  shows "for_range h (Some a) f acc = for_range h nxt f (f (val n) acc)"
  using assms by (subst for_range.simps) simp

lemma for_range_tree:
  "tree_at (deref h) None (plug c t) \<Longrightarrow> distinct (addrs (plug c t)) \<Longrightarrow> t \<noteq> Tip \<Longrightarrow>
    for_range h (Some (first_addr t)) f acc =
    for_range h (ctx_next c) f (fold f (entries_of t) acc)"
proof (induction t arbitrary: c acc)
  case Tip
  then show ?case by simp
next
  case (Fork l x r)
  let ?a = "fst x"
  let ?acc1 = "fold f (entries_of l) acc"
  from Fork.prems(1) have da: "deref h ?a = Some \<lparr>right = ptr r, left = ptr l,
      parent = hole_parent None c, val = snd x\<rparr>"
    and tr: "tree_at (deref h) (Some ?a) r"
    by (simp_all add: tree_at_plug)
  have 1: "for_range h (Some (first_addr (Fork l x r))) f acc = for_range h (Some ?a) f ?acc1"
  proof (cases "l = Tip")
    case True
    then show ?thesis by simp
  next
    case False
    then have "first_addr (Fork l x r) = first_addr l"
      by (cases l) auto
    moreover have "for_range h (Some (first_addr l)) f acc =
        for_range h (ctx_next (InL x r # c)) f ?acc1"
      using Fork.prems by (intro Fork.IH(1) False) simp_all
    ultimately show ?thesis
      by simp
  qed
  have 2: "for_range h (Some ?a) f ?acc1 =
      for_range h (ctx_next c) f (fold f (entries_of r) (f (snd x) ?acc1))"
  proof (cases "r = Tip")
    case True
    have "ascend h ?a = Some (ctx_next c)"
      using Fork.prems by (intro ascend_ctx [where t = "Fork l x r"]) simp_all
    with da True have "increment h ?a = Some (ctx_next c)"
      by (simp add: increment_def)
    from for_range_Some [OF da this] True show ?thesis
      by simp
  next
    case False
    then obtain b where b: "ptr r = Some b"
      by (cases r) auto
    from leftmost_tree [OF tr b] da b have "increment h ?a = Some (Some (first_addr r))"
      by (simp add: increment_def)
    from for_range_Some [OF da this]
    have "for_range h (Some ?a) f ?acc1 = for_range h (Some (first_addr r)) f (f (snd x) ?acc1)"
      by simp
    also have "\<dots> = for_range h (ctx_next (InR l x # c)) f
        (fold f (entries_of r) (f (snd x) ?acc1))"
      using Fork.prems by (intro Fork.IH(2) False) simp_all
    finally show ?thesis
      by simp
  qed
  show ?case
    using 1 2 by (simp del: first_addr.simps)
qed

lemma begin_wf:
  assumes "wf s t"
  shows "begin_bst s = Some (if t = Tip then None else Some (first_addr t))"
proof (cases t)
  case Tip
  with assms show ?thesis
    by (simp add: begin_bst_def wf_def)
next
  case (Fork l x r)
  with assms have "tree_at (deref (heap s)) None t" "ptr t = Some (fst x)" "root s = Some (fst x)"
    by (simp_all add: wf_def)
  with leftmost_tree [of "heap s" None t "fst x"] Fork show ?thesis
    by (simp add: begin_bst_def)
qed

lemma for_range_wf:
  assumes "wf s t" and "begin_bst s = Some b"
  shows "for_range (heap s) b f acc = Some (fold f (entries_of t) acc)"
proof (cases "t = Tip")
  case True
  with assms begin_wf [OF assms(1)] show ?thesis
    by simp
next
  case False
  from assms(1) have "tree_at (deref (heap s)) None (plug [] t)" "distinct (addrs (plug [] t))"
    by (simp_all add: wf_def)
  from for_range_tree [OF this False, of f acc] assms begin_wf [OF assms(1)] False
  show ?thesis
    by simp
qed

lemma fold_snoc: "fold (\<lambda>i ns. ns @ [i]) xs ys = ys @ xs"
  by (induction xs arbitrary: ys) auto

lemma entries_wf: "wf s t \<Longrightarrow> entries s = Some (entries_of t)"
  using begin_wf [of s t] for_range_wf [of s t _ "\<lambda>i ns. ns @ [i]" "[]"]
  by (simp add: entries_def fold_snoc)

lemma fold_stream:
  "fold (\<lambda>i os. os @ shw (fst i) @ '' '') xs os = os @ concat (map (\<lambda>i. shw (fst i) @ '' '') xs)"
  by (induction xs arbitrary: os) auto

lemma stream_out_wf:
  "wf s t \<Longrightarrow>
    stream_out shw os s = Some (os @ concat (map (\<lambda>i. shw (fst i) @ '' '') (entries_of t)))"
  using begin_wf [of s t] for_range_wf [of s t _ "\<lambda>i os. os @ shw (fst i) @ '' ''" os]
  by (simp add: stream_out_def fold_stream)

subsection \<open>The ordering invariant\<close>



lemma sorted_bst: "sorted_wrt op (keys_of t) \<Longrightarrow> bst_ord op t"
  by (induction t) (auto simp: sorted_wrt_append)

lemma bst_sorted:
  assumes "transp op"
  shows "bst_ord op t \<Longrightarrow> sorted_wrt op (keys_of t)"
proof (induction t)
  case Tip
  show ?case by simp
next
  case (Fork l x r)
  have "op y z" if "y \<in> set (keys_of l)" "z \<in> set (keys_of r)" for y z
    using Fork.prems that transpD [OF assms, of y "fst (snd x)" z] by auto
  with Fork show ?case
    by (auto simp: sorted_wrt_append)
qed


lemma entries_of_plug:
  "entries_of (plug c t) = map snd (before c) @ entries_of t @ map snd (after c)"
  by (simp add: entries_of_def inorder_plug)



subsection \<open>What \<^verbatim>\<open>insert\<close> does\<close>

lemma priv_find_present:
  assumes "asymp op" and "wf s t" and "bst_ord op t" and "(a, k, v) \<in> set (inorder t)"
  shows "priv_find op s k = Some (Some a)"
proof -
  from assms(2) have t: "tree_at (deref (heap s)) None t" and r: "root s = ptr t"
    by (simp_all add: wf_def)
  from find_present [OF assms(1) t assms(3,4)]
  have "find_loop op (heap s) k (root s) = Some (Some a)"
    by (simp add: r)
  moreover from assms(4) have "t \<noteq> Tip"
    by auto
  ultimately show ?thesis
    using r by (simp add: priv_find_def)
qed








subsection \<open>Deleting\<close>

lemma destroy_single:
  assumes "deref h a = Some n" and "left n = None" and "right n = None"
  shows "destroy (Suc stk) h a = Some (free h a)"
  using assms by (simp add: destroy.simps)

lemma length_free [simp]: "length (free h a) = length h"
  by (simp add: free_def)

lemma destroy_tree:
  "tree_at (deref h) p t \<Longrightarrow> distinct (addrs t) \<Longrightarrow> ptr t = Some a \<Longrightarrow> height t \<le> stk \<Longrightarrow>
    \<exists>h'. destroy stk h a = Some h' \<and> length h' = length h \<and>
      deref h' = (\<lambda>b. if b \<in> set (addrs t) then None else deref h b)"
proof (induction t arbitrary: h p a stk)
  case Tip
  then show ?case by simp
next
  case (Fork l x r)
  from Fork.prems have a: "a = fst x"
    by simp
  from Fork.prems(4) obtain k where k: "stk = Suc k" and hl: "height l \<le> k" and hr: "height r \<le> k"
    by (cases stk) simp_all
  from Fork.prems(1) have d: "deref h a = Some \<lparr>right = ptr r, left = ptr l, parent = p, val = snd x\<rparr>"
    and tl: "tree_at (deref h) (Some a) l" and tr: "tree_at (deref h) (Some a) r"
    by (simp_all add: a)
  from Fork.prems(2) have dl: "distinct (addrs l)" and dr: "distinct (addrs r)"
    and al: "a \<notin> set (addrs l)" and ar: "a \<notin> set (addrs r)"
    and lr: "set (addrs l) \<inter> set (addrs r) = {}"
    by (auto simp: a)
  obtain h1 where h1: "(case ptr l of None \<Rightarrow> Some h | Some b \<Rightarrow> destroy k h b) = Some h1"
    and l1: "length h1 = length h"
    and d1: "deref h1 = (\<lambda>b. if b \<in> set (addrs l) then None else deref h b)"
  proof (cases l)
    case Tip
    then show ?thesis
      using that [of h] by simp
  next
    case (Fork ll y lr)
    with Fork.IH(1) [OF tl dl _ hl, of "fst y"] that show ?thesis
      by auto
  qed
  have tr1: "tree_at (deref h1) (Some a) r"
    using tr lr by (intro tree_at_frame [OF tr]) (auto simp: d1)
  obtain h2 where h2: "(case ptr r of None \<Rightarrow> Some h1 | Some b \<Rightarrow> destroy k h1 b) = Some h2"
    and l2: "length h2 = length h1"
    and d2: "deref h2 = (\<lambda>b. if b \<in> set (addrs r) then None else deref h1 b)"
  proof (cases r)
    case Tip
    then show ?thesis
      using that [of h1] by simp
  next
    case (Fork rl y rr)
    with Fork.IH(2) [OF tr1 dr _ hr, of "fst y"] that show ?thesis
      by auto
  qed
  have da2: "deref h2 a = deref h a"
    using al ar by (simp add: d1 d2)
  have "destroy stk h a = Some (free h2 a)"
    using d h1 h2 by (simp add: k destroy.simps)
  moreover have "deref (free h2 a) = (\<lambda>b. if b \<in> set (addrs (Fork l x r)) then None else deref h b)"
    using da2 d by (auto simp: d1 d2 a fun_eq_iff)
  ultimately show ?case
    using l1 l2 by simp
qed

text \<open>A tree with more levels than the stack has room for: the destructor does not return.\<close>

lemma destroy_deep:
  "tree_at (deref h) p t \<Longrightarrow> distinct (addrs t) \<Longrightarrow> ptr t = Some a \<Longrightarrow> stk < height t \<Longrightarrow>
    destroy stk h a = None"
proof (induction t arbitrary: h p a stk)
  case Tip
  then show ?case by simp
next
  case (Fork l x r)
  show ?case
  proof (cases stk)
    case 0
    then show ?thesis
      by (simp add: destroy.simps)
  next
    case (Suc k)
    from Fork.prems have a: "a = fst x"
      by simp
    from Fork.prems(1) have d: "deref h a = Some \<lparr>right = ptr r, left = ptr l, parent = p, val = snd x\<rparr>"
      and tl: "tree_at (deref h) (Some a) l" and tr: "tree_at (deref h) (Some a) r"
      by (simp_all add: a)
    from Fork.prems(2) have dl: "distinct (addrs l)" and dr: "distinct (addrs r)"
      and lr: "set (addrs l) \<inter> set (addrs r) = {}"
      by (auto simp: a)
    show ?thesis
    proof (cases "k < height l")
      case True
      then obtain ll y lr where l: "l = Fork ll y lr"
        by (cases l) simp_all
      from Fork.IH(1) [OF tl dl _ True, of "fst y"] have "destroy k h (fst y) = None"
        by (simp add: l)
      with d show ?thesis
        by (simp add: Suc destroy.simps l)
    next
      case False
      with Fork.prems(4) have hr: "k < height r" and hl: "height l \<le> k"
        by (simp_all add: Suc)
      then obtain rl y rr where r: "r = Fork rl y rr"
        by (cases r) simp_all
      obtain h1 where h1: "(case ptr l of None \<Rightarrow> Some h | Some b \<Rightarrow> destroy k h b) = Some h1"
        and d1: "deref h1 = (\<lambda>b. if b \<in> set (addrs l) then None else deref h b)"
      proof (cases l)
        case Tip
        then show ?thesis
          using that [of h] by simp
      next
        case (Fork ll z lr)
        with destroy_tree [OF tl dl _ hl, of "fst z"] that show ?thesis
          by auto
      qed
      have tr1: "tree_at (deref h1) (Some a) r"
        using tr lr by (intro tree_at_frame [OF tr]) (auto simp: d1)
      from Fork.IH(2) [OF tr1 dr _ hr, of "fst y"] have "destroy k h1 (fst y) = None"
        by (simp add: r)
      with d h1 show ?thesis
        by (simp add: Suc destroy.simps r)
    qed
  qed
qed

lemma reset_tree:
  assumes "tree_at (deref h) p t" and "distinct (addrs t)" and "height t \<le> stk"
  shows "\<exists>h'. reset stk h (ptr t) = Some h' \<and> length h' = length h \<and>
      deref h' = (\<lambda>b. if b \<in> set (addrs t) then None else deref h b)"
proof (cases t)
  case Tip
  then show ?thesis
    by (simp add: reset_def)
next
  case (Fork l x r)
  with destroy_tree [OF assms(1,2) _ assms(3), of "fst x"] show ?thesis
    by (simp add: reset_def)
qed

lemma reset_deep:
  assumes "tree_at (deref h) p t" and "distinct (addrs t)" and "stk < height t"
  shows "reset stk h (ptr t) = None"
proof (cases t)
  case Tip
  with assms(3) show ?thesis
    by simp
next
  case (Fork l x r)
  with destroy_deep [OF assms(1,2) _ assms(3), of "fst x"] show ?thesis
    by (simp add: reset_def)
qed

lemma clear_wf:
  assumes "wf s t" and "height t \<le> stk"
  shows "\<exists>s'. clear stk s = Some s' \<and> wf s' Tip \<and> length (heap s') = length (heap s)"
proof -
  from assms have "tree_at (deref (heap s)) None t" "distinct (addrs t)" "root s = ptr t"
    by (simp_all add: wf_def)
  with reset_tree [of "heap s" None t stk] assms(2) show ?thesis
    by (auto simp: clear_def wf_def)
qed

lemma clear_deep:
  assumes "wf s t" and "stk < height t"
  shows "clear stk s = None"
proof -
  from assms have "tree_at (deref (heap s)) None t" "distinct (addrs t)" "root s = ptr t"
    by (simp_all add: wf_def)
  with reset_deep [of "heap s" None t stk] assms(2) show ?thesis
    by (simp add: clear_def)
qed

lemma self_assign_wf:
  assumes "wf s t" and "height t \<le> stk"
  shows "\<exists>s'. self_assign stk s = Some s' \<and> wf s' Tip"
proof -
  from assms have "tree_at (deref (heap s)) None t" "distinct (addrs t)" "root s = ptr t"
    by (simp_all add: wf_def)
  with reset_tree [of "heap s" None t stk] assms(2) show ?thesis
    by (auto simp: self_assign_def copy_assign_def copy_ctor_def reset_def wf_def)
qed

lemma snapshot_tree: "tree_at (deref h) p t \<Longrightarrow> snapshot h (ptr t) = Some (strip t)"
proof (induction t arbitrary: p)
  case Tip
  show ?case
    by (subst snapshot.simps) simp
next
  case (Fork l x r)
  from Fork.prems have "snapshot h (ptr l) = Some (strip l)" "snapshot h (ptr r) = Some (strip r)"
    using Fork.IH by auto
  with Fork.prems show ?case
    by (subst snapshot.simps) simp
qed

lemma snapshot_wf: "wf s t \<Longrightarrow> snapshot (heap s) (root s) = Some (strip t)"
  using snapshot_tree [of "heap s" None t] by (simp add: wf_def)

declare build.simps [simp del]

subsection \<open>Balancing\<close>

lemma build_Nil [simp]: "build [] = Tip"
  by (simp add: build.simps)

lemma build_mid:
  assumes "length A = length (A @ x # B) div 2"
  shows "build (A @ x # B) = Fork (build A) x (build B)"
proof -
  have "take (length (A @ x # B) div 2) (A @ x # B) = A"
    "(A @ x # B) ! (length (A @ x # B) div 2) = x"
    "drop (Suc (length (A @ x # B) div 2)) (A @ x # B) = B"
    unfolding assms [symmetric] by simp_all
  then show ?thesis
    by (subst build.simps) (simp del: length_append)
qed

lemma slice_split:
  assumes "i \<le> m" and "m < j" and "j \<le> length xs"
  shows "slice xs i j = slice xs i m @ xs ! m # slice xs (Suc m) j"
proof -
  have "take (j - i) (drop i xs) = take (m - i) (drop i xs) @ take (j - m) (drop m xs)"
  proof -
    have "j - i = (m - i) + (j - m)"
      using assms by simp
    then have "take (j - i) (drop i xs) =
        take (m - i) (drop i xs) @ take (j - m) (drop (m - i) (drop i xs))"
      by (simp only: take_add)
    with assms show ?thesis
      by simp
  qed
  moreover have "take (j - m) (drop m xs) = xs ! m # take (j - Suc m) (drop (Suc m) xs)"
  proof -
    have "drop m xs = xs ! m # drop (Suc m) xs"
      using assms by (intro Cons_nth_drop_Suc [symmetric]) simp
    moreover have "j - m = Suc (j - Suc m)"
      using assms by simp
    ultimately show ?thesis
      by (simp only: take_Suc_Cons)
  qed
  ultimately show ?thesis
    by (simp add: slice_def)
qed

lemma length_slice [simp]: "j \<le> length xs \<Longrightarrow> length (slice xs i j) = j - i"
  by (auto simp: slice_def)

lemma slice_all [simp]: "slice xs 0 (length xs) = xs"
  by (simp add: slice_def)

lemma slice_empty [simp]: "slice xs i i = []"
  by (simp add: slice_def)

lemma build_slice:
  assumes "i < j" and "j \<le> length xs"
  shows "build (slice xs i j) =
    Fork (build (slice xs i ((i + j) div 2))) (xs ! ((i + j) div 2))
      (build (slice xs (Suc ((i + j) div 2)) j))"
proof -
  let ?m = "(i + j) div 2"
  have m: "i \<le> ?m" "?m < j"
    using assms by auto
  have "length (slice xs i ?m) = length (slice xs i j) div 2"
    using assms m by auto
  then show ?thesis
    unfolding slice_split [OF m assms(2)]
    by (rule build_mid [unfolded slice_split [OF m assms(2), symmetric]])
qed

lemma height_strip [simp]: "height (strip t) = height t"
  by (induction t) auto

lemma build_eq_Tip [simp]: "build xs = Tip \<longleftrightarrow> xs = []"
  by (subst build.simps) simp

lemma height_build:
  "xs \<noteq> [] \<Longrightarrow> 2 ^ height (build xs) \<le> 2 * length xs"
proof (induction xs rule: build.induct)
  case (1 xs)
  let ?n = "length xs"
  let ?A = "take (?n div 2) xs"
  let ?B = "drop (Suc (?n div 2)) xs"
  have h: "height (build xs) = Suc (max (height (build ?A)) (height (build ?B)))"
    using "1.prems" by (subst build.simps) simp
  have n: "0 < ?n"
    using "1.prems" by simp
  show ?case
  proof (cases "?n = 1")
    case True
    then have "?A = []" "?B = []"
      by simp_all
    with h True show ?thesis
      by simp
  next
    case False
    with n have n2: "2 \<le> ?n"
      by linarith
    then have "?A \<noteq> []"
      by auto
    from "1.IH"(1) [OF "1.prems" this] have a: "2 ^ height (build ?A) \<le> 2 * (?n div 2)"
      by simp
    have b: "2 ^ height (build ?B) \<le> 2 * (?n div 2)"
    proof (cases "?B = []")
      case True
      with n2 show ?thesis
        by simp
    next
      case False
      from "1.IH"(2) [OF "1.prems" this] have "2 ^ height (build ?B) \<le> 2 * (?n - Suc (?n div 2))"
        by simp
      also have "\<dots> \<le> 2 * (?n div 2)"
        by simp
      finally show ?thesis .
    qed
    have "(2::nat) ^ max (height (build ?A)) (height (build ?B)) \<le> 2 * (?n div 2)"
      using a b by (simp add: max_def)
    then have "(2::nat) ^ height (build xs) \<le> 2 * (2 * (?n div 2))"
      by (simp add: h)
    also have "\<dots> \<le> 2 * ?n"
      by simp
    finally show ?thesis .
  qed
qed

lemma height_build_log:
  "int (height (build xs)) \<le> \<lceil>log 2 (real (length xs) + 1)\<rceil>"
proof (cases "xs = []")
  case True
  then show ?thesis by simp
next
  case False
  let ?h = "height (build xs)"
  from False have "0 < ?h"
    by (subst build.simps) simp
  then obtain k where k: "?h = Suc k"
    by (cases ?h) auto
  from height_build [OF False] have "2 ^ k < length xs + 1"
    by (simp add: k)
  then have "real k < log 2 (real (length xs + 1))"
    by (rule less_log2_of_power)
  then have "int k < \<lceil>log 2 (real (length xs) + 1)\<rceil>"
    by (simp add: less_ceiling_iff add.commute)
  then show ?thesis
    by (simp add: k)
qed

lemma int_of_size_small: "n \<le> 2 ^ 30 \<Longrightarrow> int_of_size n = int n"
  by (simp add: int_of_size_def INT_MAX_def Let_def)

lemma priv_balance_stop: "en \<le> start \<Longrightarrow> priv_balance stk op xs start en s = Some s"
  by (subst priv_balance.simps) simp

lemma priv_balance_step:
  assumes "i < j" and "j \<le> length xs" and "j \<le> 2 ^ 30"
  shows "priv_balance stk op xs (int i) (int j) s =
    insert_bst stk op (xs ! ((i + j) div 2)) s \<bind>
      (\<lambda>(r, s1). priv_balance stk op xs (int i) (int ((i + j) div 2)) s1 \<bind>
        priv_balance stk op xs (int (Suc ((i + j) div 2))) (int j))"
proof -
  have "int i + int j \<le> INT_MAX"
    using assms by (simp add: INT_MAX_def)
  moreover have "half (int i + int j) = int ((i + j) div 2)"
    by (simp add: half_def zdiv_int)
  moreover have "(i + j) div 2 < length xs"
    using assms by auto
  moreover have "int ((i + j) div 2) + 1 = int (Suc ((i + j) div 2))"
    by simp
  ultimately show ?thesis
    using assms(1)
    by (subst priv_balance.simps) (simp only: INT_MAX_def Let_def, simp del: of_nat_Suc of_nat_add)
qed

lemma priv_balance_range:
  assumes "asymp op" and "sorted_wrt op (map fst xs)"
  shows "wf s (plug c Tip) \<Longrightarrow> i \<le> j \<Longrightarrow> j \<le> length xs \<Longrightarrow> j \<le> 2 ^ 30 \<Longrightarrow>
    (\<And>m. i \<le> m \<Longrightarrow> m < j \<Longrightarrow> fits op c (fst (xs ! m))) \<Longrightarrow>
    \<exists>s' t'. priv_balance stk op xs (int i) (int j) s = Some s' \<and> wf s' (plug c t') \<and>
      entries_of t' = slice xs i j \<and> strip t' = build (slice xs i j)"
proof (induction "j - i" arbitrary: i j s c rule: less_induct)
  case less
  show ?case
  proof (cases "i = j")
    case True
    with less.prems(1) have "priv_balance stk op xs (int i) (int j) s = Some s \<and> wf s (plug c Tip) \<and>
        entries_of Tip = slice xs i j \<and> strip Tip = build (slice xs i j)"
      by (simp add: priv_balance_stop)
    then show ?thesis
      by blast
  next
    case False
    with less.prems have ij: "i < j"
      by simp
    let ?m = "(i + j) div 2"
    let ?x = "xs ! ?m"
    let ?b = "length (heap s)"
    have m: "i \<le> ?m" "?m < j"
      using ij by auto
    have key: "op (fst (xs ! k)) (fst (xs ! l))" if "k < l" "l < length xs" for k l
      using sorted_wrt_nth_less [OF assms(2), of k l] that by simp
    from insert_hole [OF assms(1) less.prems(1), of ?x] less.prems(5) [OF m]
    obtain s1 where s1: "insert_bst stk op ?x s = Some ((Some ?b, True), s1)"
      and w1: "wf s1 (plug c (Fork Tip (?b, ?x) Tip))"
      by blast
    let ?c1 = "InL (?b, ?x) Tip # c"
    have "\<exists>s' t'. priv_balance stk op xs (int i) (int ?m) s1 = Some s' \<and> wf s' (plug ?c1 t') \<and>
        entries_of t' = slice xs i ?m \<and> strip t' = build (slice xs i ?m)"
    proof (rule less.hyps)
      show "?m - i < j - i"
        using m by simp
      show "wf s1 (plug ?c1 Tip)"
        using w1 by simp
      show "i \<le> ?m" "?m \<le> length xs" "?m \<le> 2 ^ 30"
        using m less.prems by simp_all
      show "fits op ?c1 (fst (xs ! k))" if "i \<le> k" "k < ?m" for k
        using that key [of k ?m] less.prems(5) [of k] m less.prems(3) by simp
    qed
    then obtain s2 tl where s2: "priv_balance stk op xs (int i) (int ?m) s1 = Some s2"
      and w2: "wf s2 (plug ?c1 tl)" and el: "entries_of tl = slice xs i ?m"
      and bl: "strip tl = build (slice xs i ?m)"
      by blast
    let ?c2 = "InR tl (?b, ?x) # c"
    have "\<exists>s' t'. priv_balance stk op xs (int (Suc ?m)) (int j) s2 = Some s' \<and> wf s' (plug ?c2 t') \<and>
        entries_of t' = slice xs (Suc ?m) j \<and> strip t' = build (slice xs (Suc ?m) j)"
    proof (rule less.hyps)
      show "j - Suc ?m < j - i"
        using m by simp
      show "wf s2 (plug ?c2 Tip)"
        using w2 by simp
      show "Suc ?m \<le> j" "j \<le> length xs" "j \<le> 2 ^ 30"
        using m less.prems by simp_all
      show "fits op ?c2 (fst (xs ! k))" if "Suc ?m \<le> k" "k < j" for k
        using that key [of ?m k] less.prems(5) [of k] m less.prems(3) by simp
    qed
    then obtain s3 tr where s3: "priv_balance stk op xs (int (Suc ?m)) (int j) s2 = Some s3"
      and w3: "wf s3 (plug ?c2 tr)" and er: "entries_of tr = slice xs (Suc ?m) j"
      and br: "strip tr = build (slice xs (Suc ?m) j)"
      by blast
    let ?t = "Fork tl (?b, ?x) tr"
    have "priv_balance stk op xs (int i) (int j) s = Some s3"
      using s1 s2 s3 by (simp add: priv_balance_step [OF ij less.prems(3,4)])
    moreover have "wf s3 (plug c ?t)"
      using w3 by simp
    moreover have "entries_of ?t = slice xs i j"
      by (simp add: el er slice_split [OF m less.prems(3)])
    moreover have "strip ?t = build (slice xs i j)"
      by (simp add: bl br build_slice [OF ij less.prems(3)])
    ultimately show ?thesis
      by blast
  qed
qed

lemma keys_entries: "keys_of t = map fst (entries_of t)"
  by (simp add: keys_of_def entries_of_def)

lemma balance_wf:
  assumes "asymp op" and "transp op" and "wf s t" and "bst_ord op t"
    and "length (entries_of t) \<le> 2 ^ 30" and "height t \<le> stk"
  shows "\<exists>s' t'. balance stk op s = Some s' \<and> wf s' t' \<and> bst_ord op t' \<and>
    entries_of t' = entries_of t \<and> strip t' = build (entries_of t)"
proof -
  let ?xs = "entries_of t"
  from clear_wf [OF assms(3,6)] obtain s1 where s1: "clear stk s = Some s1" and w1: "wf s1 Tip"
    by blast
  have sorted: "sorted_wrt op (map fst ?xs)"
    using bst_sorted [OF assms(2,4)] by (simp add: keys_entries)
  from priv_balance_range [OF assms(1) sorted, of s1 "[]" 0 "length ?xs" stk] w1 assms(5)
  obtain s' t' where b: "priv_balance stk op ?xs 0 (int (length ?xs)) s1 = Some s'"
    and w: "wf s' t'" and e: "entries_of t' = ?xs" and st: "strip t' = build ?xs"
    by auto
  have "balance stk op s = Some s'"
    using entries_wf [OF assms(3)] s1 b assms(5)
    by (simp add: balance_def int_of_size_small)
  moreover have "bst_ord op t'"
    using sorted by (intro sorted_bst) (simp add: keys_entries e)
  ultimately show ?thesis
    using w e st by blast
qed

subsection \<open>Erasing a node without children\<close>

lemma wf_plugD:
  assumes "wf s (plug c t)"
  shows "root s = ptr (plug c t)" and "ctx_at (deref (heap s)) None c (ptr t)"
    and "tree_at (deref (heap s)) (hole_parent None c) t"
    and "distinct (ctx_addrs c)" and "distinct (addrs t)"
    and "set (ctx_addrs c) \<inter> set (addrs t) = {}"
  using assms unfolding wf_plug by simp_all

lemma ptr_plug_ctx: "ptr (plug (f # c) t) \<in> Some ` set (ctx_addrs (f # c))"
proof (induction c arbitrary: f t)
  case Nil
  show ?case by (cases f) auto
next
  case (Cons g c)
  have "ptr (plug (g # c) (fill f t)) \<in> Some ` set (ctx_addrs (g # c))"
    by (rule Cons)
  then show ?case
    by (cases f) auto
qed

lemma root_is_node:
  assumes "wf s (plug c (Fork l (a, e) r))"
  shows "(root s = Some a) = (c = [])"
proof (cases c)
  case Nil
  with assms show ?thesis
    by (simp add: wf_def)
next
  case (Cons f cs)
  from assms have "a \<notin> set (ctx_addrs c)" and "root s = ptr (plug c (Fork l (a, e) r))"
    by (auto simp: wf_plug)
  with ptr_plug_ctx [of f cs "Fork l (a, e) r"] show ?thesis
    by (auto simp: Cons)
qed

lemma node_at_hole:
  assumes "wf s (plug c (Fork l (a, e) r))"
  shows "deref (heap s) a =
    Some \<lparr>right = ptr r, left = ptr l, parent = hole_parent None c, val = e\<rparr>"
  using assms by (simp add: wf_plug)

lemma parent_at_hole:
  assumes "wf s (plug (f # cs) t)"
  shows "deref (heap s) (fst (frame_item f)) = repoint None (f # cs) (ptr t)"
  by (rule ctx_at_node [OF wf_plugD(2) [OF assms]])

lemma left_is_node:
  assumes "wf s (plug (f # cs) (Fork l (a, e) r))"
    and "deref (heap s) (fst (frame_item f)) = Some pn"
  shows "(left pn = Some a) = is_InL f"
proof (cases f)
  case (InL z rz)
  with parent_at_hole [OF assms(1)] assms(2) show ?thesis
    by auto
next
  case (InR lz z)
  from wf_plugD(6) [OF assms(1)] have "a \<notin> set (addrs lz)"
    by (auto simp: InR)
  then have "ptr lz \<noteq> Some a"
    using ptr_in_addrs by blast
  with parent_at_hole [OF assms(1)] assms(2) show ?thesis
    by (auto simp: InR)
qed

lemma erase_leaf_wf:
  assumes "wf s (plug c (Fork Tip (a, e) Tip))"
  shows "\<exists>s'. erase_leaf (Suc stk) s a = Some s' \<and> wf s' (plug c Tip)"
proof (cases c)
  case Nil
  have "destroy (Suc stk) (heap s) a = Some (free (heap s) a)"
    by (rule destroy_single [OF node_at_hole [OF assms]]) simp_all
  moreover from assms have "root s = Some a"
    by (simp add: wf_def Nil)
  ultimately show ?thesis
    by (simp add: erase_leaf_def reset_root_def reset_def wf_def Nil)
next
  case (Cons f cs)
  let ?h = "heap s"
  let ?q = "fst (frame_item f)"
  let ?pn' = "repoint None c None"
  note nd = node_at_hole [OF assms]
  from root_is_node [OF assms] have nr: "Some a \<noteq> root s"
    by (auto simp: Cons)
  from assms have w: "wf s (plug (f # cs) (Fork Tip (a, e) Tip))"
    by (simp add: Cons)
  obtain pn where pn: "deref ?h ?q = Some pn"
    using parent_at_hole [OF w] by (cases f) auto
  from wf_plugD(4,6) [OF assms] have d: "distinct (ctx_addrs c)" and ac: "a \<notin> set (ctx_addrs c)"
    by auto
  from ac have aq: "a \<noteq> ?q"
    by (cases f) (auto simp: Cons)
  have la: "a < length ?h" and lq: "?q < length ?h"
    using nd pn by (auto dest: deref_Some_less)
  have hp: "hole_parent None c = Some ?q"
    by (simp add: Cons)
  define h' where "h' = free (?h[?q := ?pn']) a"
  have run: "erase_leaf (Suc stk) s a = Some (s\<lparr>heap := h'\<rparr>)"
  proof (cases f)
    case (InL z rz)
    with left_is_node [OF w pn] have "left pn = Some a"
      by simp
    moreover have "pn\<lparr>left := None\<rparr> = the ?pn'"
      using parent_at_hole [OF w] pn by (auto simp: InL Cons)
    moreover have "?pn' = Some (the ?pn')"
      by (simp add: InL Cons)
    moreover have "deref (?h[?q := ?pn']) a = deref ?h a"
      using aq lq by (simp add: deref_update)
    then have "destroy (Suc stk) (?h[?q := ?pn']) a = Some (free (?h[?q := ?pn']) a)"
      using nd by (intro destroy_single [OF trans [OF _ nd]]) simp_all
    ultimately show ?thesis
      using nd nr pn aq hp
      by (simp add: erase_leaf_def reset_left_def reset_def h'_def)
  next
    case (InR lz z)
    with left_is_node [OF w pn] have "left pn \<noteq> Some a"
      by simp
    moreover have "right pn = Some a"
      using parent_at_hole [OF w] pn by (auto simp: InR)
    moreover have "pn\<lparr>right := None\<rparr> = the ?pn'"
      using parent_at_hole [OF w] pn by (auto simp: InR Cons)
    moreover have "?pn' = Some (the ?pn')"
      by (simp add: InR Cons)
    moreover have "deref (?h[?q := ?pn']) a = deref ?h a"
      using aq lq by (simp add: deref_update)
    then have "destroy (Suc stk) (?h[?q := ?pn']) a = Some (free (?h[?q := ?pn']) a)"
      using nd by (intro destroy_single [OF trans [OF _ nd]]) simp_all
    ultimately show ?thesis
      using nd nr pn aq hp
      by (simp add: erase_leaf_def reset_right_def reset_def h'_def)
  qed
  have m': "deref h' = ((deref ?h)(?q := ?pn'))(a := None)"
    using la lq by (simp add: h'_def free_def deref_update)
  have "ctx_at (deref h') None c None"
    unfolding Cons
  proof (rule ctx_at_repoint)
    show "ctx_at (deref ?h) None (f # cs) (Some a)"
      using wf_plugD(2) [OF w] by simp
    show "distinct (ctx_addrs (f # cs))"
      using d by (simp add: Cons)
    show "deref h' x = deref ?h x" if "x \<in> set (ctx_addrs (f # cs))" "x \<noteq> ?q" for x
      using that ac by (auto simp: m' Cons)
    show "deref h' ?q = repoint None (f # cs) None"
      using aq by (simp add: m' Cons)
  qed
  moreover have "root s = ptr (plug c Tip)"
    using assms ptr_plug [of f cs] by (simp add: wf_def Cons)
  ultimately have "wf (s\<lparr>heap := h'\<rparr>) (plug c Tip)"
    using d unfolding wf_plug by simp
  with run show ?thesis
    by blast
qed

subsection \<open>Erasing a node with one child\<close>

lemma destroy_childless:
  "(case deref h a of None \<Rightarrow> False | Some n \<Rightarrow> left n = None \<and> right n = None) \<Longrightarrow>
    destroy (Suc stk) h a = Some (free h a)"
  by (auto simp: destroy.simps split: option.splits)

lemma tree_at_reparent:
  assumes "tree_at m p (Fork l x r)" and "distinct (addrs (Fork l x r))"
    and "\<And>b. b \<in> set (addrs l) \<union> set (addrs r) \<Longrightarrow> m' b = m b"
    and "m' (fst x) = Some \<lparr>right = ptr r, left = ptr l, parent = p', val = snd x\<rparr>"
  shows "tree_at m' p' (Fork l x r)"
proof -
  have "tree_at m' (Some (fst x)) l = tree_at m (Some (fst x)) l"
    using assms(3) by (intro tree_at_cong) simp
  moreover have "tree_at m' (Some (fst x)) r = tree_at m (Some (fst x)) r"
    using assms(3) by (intro tree_at_cong) simp
  ultimately show ?thesis
    using assms(1,4) by simp
qed

lemma erase_one_child_root:
  assumes "wf s (Fork l (a, e) r)" and "(l = Tip) \<noteq> (r = Tip)"
  shows "\<exists>s'. erase_one_child (Suc stk) s a = Some s' \<and> wf s' (if l = Tip then r else l)"
proof -
  let ?h = "heap s"
  let ?ch = "if l = Tip then r else l"
  obtain cl y cr where ch: "?ch = Fork cl y cr"
    using assms(2) by (cases l; cases r) auto
  let ?ca = "fst y"
  let ?cn = "\<lparr>right = ptr cr, left = ptr cl, parent = None, val = snd y\<rparr>"
  from assms(1) have root: "root s = Some a"
    and nd: "deref ?h a = Some \<lparr>right = ptr r, left = ptr l, parent = None, val = e\<rparr>"
    and tl: "tree_at (deref ?h) (Some a) l" and tr: "tree_at (deref ?h) (Some a) r"
    and dist: "distinct (addrs (Fork l (a, e) r))"
    by (simp_all add: wf_def)
  have tch: "tree_at (deref ?h) (Some a) (Fork cl y cr)"
    using tl tr ch by (auto split: if_splits)
  then have cn: "deref ?h ?ca = Some (?cn\<lparr>parent := Some a\<rparr>)"
    by simp
  have dch: "distinct (addrs (Fork cl y cr))" and ach: "a \<notin> set (addrs (Fork cl y cr))"
    using dist ch by (auto split: if_splits)
  then have ne: "?ca \<noteq> a"
    by auto
  have la: "a < length ?h" and lc: "?ca < length ?h"
    using nd cn by (auto dest: deref_Some_less)
  have "\<exists>h'. erase_one_child (Suc stk) s a = Some \<lparr>root = Some ?ca, heap = h'\<rparr> \<and>
      deref h' = (deref ?h)(?ca := Some ?cn, a := None)"
  proof (cases "l = Tip")
    case True
    with assms(2) ch have "ptr r = Some ?ca" "ptr l = None"
      by auto
    with nd cn ne la lc root show ?thesis
      by (simp add: erase_one_child_def set_parent_def release_right_def reset_root_def reset_def
          destroy_childless deref_update free_def)
  next
    case False
    with assms(2) ch have "ptr l = Some ?ca" "ptr r = None"
      by auto
    with nd cn ne la lc root show ?thesis
      by (simp add: erase_one_child_def set_parent_def release_left_def reset_root_def reset_def
          destroy_childless deref_update free_def)
  qed
  then obtain h' where run: "erase_one_child (Suc stk) s a = Some \<lparr>root = Some ?ca, heap = h'\<rparr>"
    and m': "deref h' = (deref ?h)(?ca := Some ?cn, a := None)"
    by blast
  have "tree_at (deref h') None (Fork cl y cr)"
  proof (rule tree_at_reparent [OF tch dch])
    show "deref h' b = deref ?h b" if "b \<in> set (addrs cl) \<union> set (addrs cr)" for b
      using that dch ach by (auto simp: m')
    show "deref h' ?ca = Some ?cn"
      using ne by (simp add: m')
  qed
  then have "wf \<lparr>root = Some ?ca, heap = h'\<rparr> ?ch"
    using dch by (simp add: wf_def ch)
  with run show ?thesis
    by blast
qed

lemma erase_one_child_inner:
  assumes "wf s (plug (f # cs) (Fork l (a, e) r))" and "(l = Tip) \<noteq> (r = Tip)"
  shows "\<exists>s'. erase_one_child (Suc stk) s a = Some s' \<and> wf s' (plug (f # cs) (if l = Tip then r else l))"
proof -
  let ?h = "heap s"
  let ?c = "f # cs"
  let ?q = "fst (frame_item f)"
  let ?ch = "if l = Tip then r else l"
  obtain cl y cr where ch: "?ch = Fork cl y cr"
    using assms(2) by (cases l; cases r) auto
  let ?ca = "fst y"
  let ?cn = "\<lparr>right = ptr cr, left = ptr cl, parent = Some ?q, val = snd y\<rparr>"
  note nd = node_at_hole [OF assms(1)]
  note pn = parent_at_hole [OF assms(1)]
  from root_is_node [OF assms(1)] have nr: "root s \<noteq> Some a"
    by simp
  from wf_plugD [OF assms(1)] have ctx: "ctx_at (deref ?h) None ?c (Some a)"
    and tn: "tree_at (deref ?h) (Some ?q) (Fork l (a, e) r)"
    and dc: "distinct (ctx_addrs ?c)" and dist: "distinct (addrs (Fork l (a, e) r))"
    and disj: "set (ctx_addrs ?c) \<inter> set (addrs (Fork l (a, e) r)) = {}"
    by simp_all
  have tch: "tree_at (deref ?h) (Some a) (Fork cl y cr)"
    using tn ch by (auto split: if_splits)
  then have cn: "deref ?h ?ca = Some (?cn\<lparr>parent := Some a\<rparr>)"
    by simp
  have dch: "distinct (addrs (Fork cl y cr))" and ach: "a \<notin> set (addrs (Fork cl y cr))"
    and sub: "set (addrs (Fork cl y cr)) \<subseteq> set (addrs (Fork l (a, e) r))"
    using dist ch by (auto split: if_splits)
  have qc: "?q \<in> set (ctx_addrs ?c)"
    by (cases f) auto
  have ne: "?ca \<noteq> a" "a \<noteq> ?q" "?ca \<noteq> ?q"
    using ach qc disj sub by auto
  obtain pr where pr: "deref ?h ?q = Some pr"
    using pn by (cases f) auto
  have la: "a < length ?h" "?ca < length ?h" "?q < length ?h"
    using nd cn pr by (auto dest: deref_Some_less)
  have "\<exists>s'. erase_one_child (Suc stk) s a = Some s' \<and> root s' = root s \<and>
      deref (heap s') = (deref ?h)(?ca := Some ?cn, ?q := repoint None ?c (Some ?ca), a := None)"
  proof (cases f)
    case (InL z rz)
    show ?thesis
    proof (cases "l = Tip")
      case True
      with assms(2) ch have "ptr r = Some ?ca" "ptr l = None"
        by auto
      with nd cn ne la nr pn show ?thesis
        by (simp add: erase_one_child_def set_parent_def release_right_def reset_left_def reset_def
            destroy_childless deref_update free_def InL)
    next
      case False
      with assms(2) ch have "ptr l = Some ?ca" "ptr r = None"
        by auto
      with nd cn ne la nr pn show ?thesis
        by (simp add: erase_one_child_def set_parent_def release_left_def reset_left_def reset_def
            destroy_childless deref_update free_def InL)
    qed
  next
    case (InR lz z)
    from left_is_node [OF assms(1) pr] pr pn have nl: "ptr lz \<noteq> Some a"
      by (auto simp: InR)
    show ?thesis
    proof (cases "l = Tip")
      case True
      with assms(2) ch have "ptr r = Some ?ca" "ptr l = None"
        by auto
      with nd cn ne la nr pn nl show ?thesis
        by (simp add: erase_one_child_def set_parent_def release_right_def reset_right_def reset_def
            destroy_childless deref_update free_def InR)
    next
      case False
      with assms(2) ch have "ptr l = Some ?ca" "ptr r = None"
        by auto
      with nd cn ne la nr pn nl show ?thesis
        by (simp add: erase_one_child_def set_parent_def release_left_def reset_right_def reset_def
            destroy_childless deref_update free_def InR)
    qed
  qed
  then obtain s' where run: "erase_one_child (Suc stk) s a = Some s'" and rs: "root s' = root s"
    and m': "deref (heap s') =
      (deref ?h)(?ca := Some ?cn, ?q := repoint None ?c (Some ?ca), a := None)"
    by blast
  define h' where "h' = heap s'"
  note m' = m' [folded h'_def]
  have "ctx_at (deref h') None ?c (Some ?ca)"
  proof (rule ctx_at_repoint [OF ctx dc])
    show "deref h' b = deref ?h b" if "b \<in> set (ctx_addrs ?c)" "b \<noteq> ?q" for b
      using that disj sub by (auto simp: m')
    show "deref h' ?q = repoint None ?c (Some ?ca)"
      using ne by (simp add: m')
  qed
  moreover have "tree_at (deref h') (Some ?q) (Fork cl y cr)"
  proof (rule tree_at_reparent [OF tch dch])
    show "deref h' b = deref ?h b" if "b \<in> set (addrs cl) \<union> set (addrs cr)" for b
      using that dch ach disj sub qc by (auto simp: m')
    show "deref h' ?ca = Some ?cn"
      using ne by (simp add: m')
  qed
  moreover have "root s = ptr (plug ?c ?ch)"
    using wf_plugD(1) [OF assms(1)] ptr_plug [of f cs] by simp
  moreover have "set (ctx_addrs ?c) \<inter> set (addrs (Fork cl y cr)) = {}"
    using disj sub by auto
  ultimately have "wf s' (plug ?c ?ch)"
    using dc dch rs unfolding wf_plug ch h'_def by simp
  with run show ?thesis
    by blast
qed

lemma erase_one_child_wf:
  assumes "wf s (plug c (Fork l (a, e) r))" and "(l = Tip) \<noteq> (r = Tip)"
  shows "\<exists>s'. erase_one_child (Suc stk) s a = Some s' \<and> wf s' (plug c (if l = Tip then r else l))"
proof (cases c)
  case Nil
  with erase_one_child_root [of s l a e r] assms show ?thesis
    by simp
next
  case (Cons f cs)
  with erase_one_child_inner [of s f cs l a e r] assms show ?thesis
    by simp
qed

subsection \<open>Erasing a node with at most one child\<close>

lemma erase_simple:
  assumes "asymp op" and "wf s (plug c (Fork l (a, e) r))"
    and "bst_ord op (plug c (Fork l (a, e) r))" and "l = Tip \<or> r = Tip"
  shows "\<exists>s'. erase (Suc stk) op (fst e) s = Some s' \<and> wf s' (plug c (if l = Tip then r else l))"
proof -
  have "(a, fst e, snd e) \<in> set (inorder (plug c (Fork l (a, e) r)))"
    by (simp add: inorder_plug)
  from priv_find_present [OF assms(1,2,3) this]
  have find: "priv_find op s (fst e) = Some (Some a)" .
  note nd = node_at_hole [OF assms(2)]
  show ?thesis
  proof (cases "l = Tip \<and> r = Tip")
    case True
    with erase_leaf_wf [of s c a e] assms(2) obtain s' where "erase_leaf (Suc stk) s a = Some s'"
      "wf s' (plug c Tip)"
      by auto
    with find nd True show ?thesis
      by (subst erase.simps) simp
  next
    case False
    with assms(4) have one: "(l = Tip) \<noteq> (r = Tip)"
      by auto
    from erase_one_child_wf [OF assms(2) one] obtain s' where "erase_one_child (Suc stk) s a = Some s'"
      "wf s' (plug c (if l = Tip then r else l))"
      by blast
    with find nd one show ?thesis
      by (subst erase.simps) auto
  qed
qed

lemma leftmost_plug:
  "t \<noteq> Tip \<Longrightarrow> \<exists>cm x rm. t = plug cm (Fork Tip x rm) \<and> before cm = [] \<and> fst x = first_addr t"
proof (induction t)
  case Tip
  then show ?case by simp
next
  case (Fork l x r)
  show ?case
  proof (cases "l = Tip")
    case True
    then have "Fork l x r = plug [] (Fork Tip x r) \<and> before [] = [] \<and>
        fst x = first_addr (Fork l x r)"
      by simp
    then show ?thesis
      by blast
  next
    case False
    with Fork.IH(1) obtain cm y rm where l: "l = plug cm (Fork Tip y rm)" and b: "before cm = []"
      and f: "fst y = first_addr l"
      by blast
    from False have "first_addr (Fork l x r) = first_addr l"
      by (cases l) auto
    with l b f have "Fork l x r = plug (cm @ [InL x r]) (Fork Tip y rm) \<and>
        before (cm @ [InL x r]) = [] \<and> fst y = first_addr (Fork l x r)"
      by (simp add: plug_append before_append)
    then show ?thesis
      by blast
  qed
qed

subsection \<open>Replacing a node by a new one\<close>

lemma splice_root:
  assumes "wf s (Fork l (a, e) r)" and "l \<noteq> Tip"
  shows "\<exists>s'. splice (Suc stk) s a v = Some s' \<and> wf s' (Fork l (length (heap s), v) r)"
proof -
  let ?h = "heap s"
  let ?b = "length ?h"
  obtain ll yl lr where l: "l = Fork ll yl lr"
    using assms(2) by (cases l) auto
  let ?la = "fst yl"
  from assms(1) have root: "root s = Some a"
    and nd: "deref ?h a = Some \<lparr>right = ptr r, left = Some ?la, parent = None, val = e\<rparr>"
    and tl: "tree_at (deref ?h) (Some a) l" and tr: "tree_at (deref ?h) (Some a) r"
    and dist: "distinct (addrs (Fork l (a, e) r))"
    by (simp_all add: wf_def l)
  from tl have ln: "deref ?h ?la =
      Some \<lparr>right = ptr lr, left = ptr ll, parent = Some a, val = snd yl\<rparr>"
    by (simp add: l)
  have fresh: "?b \<notin> set (addrs (Fork l (a, e) r))"
    using assms(1) tree_at_fresh [of ?h None "Fork l (a, e) r"] by (simp add: wf_def)
  have la: "a < ?b" "?la < ?b"
    using nd ln by (auto dest: deref_Some_less)
  have ne: "?la \<noteq> a"
    using dist by (auto simp: l)
  have "\<exists>s'. splice (Suc stk) s a v = Some s' \<and> root s' = Some ?b \<and>
      (\<forall>x. deref (heap s') x =
        (if x = ?b then Some \<lparr>right = ptr r, left = ptr l, parent = None, val = v\<rparr>
         else if x = a then None
         else if Some x = ptr l \<or> Some x = ptr r
           then map_option (\<lambda>n. n\<lparr>parent := Some ?b\<rparr>) (deref ?h x)
         else deref ?h x))"
  proof (cases r)
    case Tip
    with nd ln la ne root show ?thesis
      by (simp add: splice_def rebuild_def adopt_def set_parent_def release_left_def
          release_right_def reset_root_def reset_def new_def node4_def
          destroy_childless deref_update free_def l)
  next
    case (Fork rl yr rr)
    let ?ra = "fst yr"
    from tr have rn: "deref ?h ?ra =
        Some \<lparr>right = ptr rr, left = ptr rl, parent = Some a, val = snd yr\<rparr>"
      by (simp add: Fork)
    have "?ra < ?b" "?ra \<noteq> a" "?ra \<noteq> ?la"
      using rn dist by (auto simp: l Fork dest: deref_Some_less)
    with nd ln la ne root rn show ?thesis
      by (simp add: splice_def rebuild_def adopt_def set_parent_def release_left_def
          release_right_def reset_root_def reset_def new_def node4_def
          destroy_childless deref_update free_def l Fork)
  qed
  then obtain s' where run: "splice (Suc stk) s a v = Some s'" and rs: "root s' = Some ?b"
    and m': "\<And>x. deref (heap s') x =
        (if x = ?b then Some \<lparr>right = ptr r, left = ptr l, parent = None, val = v\<rparr>
         else if x = a then None
         else if Some x = ptr l \<or> Some x = ptr r
           then map_option (\<lambda>n. n\<lparr>parent := Some ?b\<rparr>) (deref ?h x)
         else deref ?h x)"
    by blast
  have sub: "tree_at (deref (heap s')) (Some ?b) t"
    if t: "tree_at (deref ?h) (Some a) t" and tlr: "t = l \<or> t = r" for t
  proof (cases t)
    case Tip
    then show ?thesis by simp
  next
    case (Fork tl y tr)
    have inner: "set (addrs tl) \<union> set (addrs tr) \<subseteq> set (addrs l) \<union> set (addrs r)"
      and dt: "distinct (addrs t)"
      and roots: "\<forall>x \<in> set (addrs tl) \<union> set (addrs tr). Some x \<noteq> ptr l \<and> Some x \<noteq> ptr r"
      using tlr Fork dist by (cases l; cases r; auto)+
    show ?thesis
      unfolding Fork
    proof (rule tree_at_reparent)
      show "tree_at (deref ?h) (Some a) (Fork tl y tr)"
        using t Fork by simp
      show "distinct (addrs (Fork tl y tr))"
        using dt Fork by simp
      show "deref (heap s') x = deref ?h x" if "x \<in> set (addrs tl) \<union> set (addrs tr)" for x
        using that inner roots fresh dist by (auto simp: m')
      have "fst y \<noteq> ?b" "fst y \<noteq> a" "Some (fst y) = ptr l \<or> Some (fst y) = ptr r"
        using tlr Fork fresh dist by auto
      moreover have "deref ?h (fst y) =
          Some \<lparr>right = ptr tr, left = ptr tl, parent = Some a, val = snd y\<rparr>"
        using t Fork by simp
      ultimately show "deref (heap s') (fst y) =
          Some \<lparr>right = ptr tr, left = ptr tl, parent = Some ?b, val = snd y\<rparr>"
        by (simp add: m')
    qed
  qed
  have "tree_at (deref (heap s')) None (Fork l (?b, v) r)"
    using sub [OF tl] sub [OF tr] by (simp add: m')
  then have "wf s' (Fork l (?b, v) r)"
    using rs dist fresh by (simp add: wf_def)
  with run show ?thesis
    by blast
qed

lemma splice_inner:
  assumes "wf s (plug (f # cs) (Fork l (a, e) r))" and "l \<noteq> Tip"
  shows "\<exists>s'. splice (Suc stk) s a v = Some s' \<and> wf s' (plug (f # cs) (Fork l (length (heap s), v) r))"
proof -
  let ?h = "heap s"
  let ?b = "length ?h"
  let ?c = "f # cs"
  let ?q = "fst (frame_item f)"
  obtain ll yl lr where l: "l = Fork ll yl lr"
    using assms(2) by (cases l) auto
  let ?la = "fst yl"
  note pn = parent_at_hole [OF assms(1)]
  from root_is_node [OF assms(1)] have nr: "root s \<noteq> Some a"
    by simp
  from wf_plugD [OF assms(1)] have ctx: "ctx_at (deref ?h) None ?c (Some a)"
    and tn: "tree_at (deref ?h) (Some ?q) (Fork l (a, e) r)"
    and dc: "distinct (ctx_addrs ?c)" and dist: "distinct (addrs (Fork l (a, e) r))"
    and disj: "set (ctx_addrs ?c) \<inter> set (addrs (Fork l (a, e) r)) = {}"
    by simp_all
  from tn have nd: "deref ?h a = Some \<lparr>right = ptr r, left = Some ?la, parent = Some ?q, val = e\<rparr>"
    and tl: "tree_at (deref ?h) (Some a) l" and tr: "tree_at (deref ?h) (Some a) r"
    by (simp_all add: l)
  from tl have ln: "deref ?h ?la =
      Some \<lparr>right = ptr lr, left = ptr ll, parent = Some a, val = snd yl\<rparr>"
    by (simp add: l)
  have fresh: "?b \<notin> set (addrs (Fork l (a, e) r))" "?b \<notin> set (ctx_addrs ?c)"
    using tree_at_fresh [OF tn] ctx_at_live [OF ctx, of ?b] by auto
  have qc: "?q \<in> set (ctx_addrs ?c)"
    by (cases f) auto
  obtain pr where pr: "deref ?h ?q = Some pr"
    using pn by (cases f) auto
  have la: "a < ?b" "?la < ?b" "?q < ?b"
    using nd ln pr by (auto dest: deref_Some_less)
  have ne: "?la \<noteq> a" "a \<noteq> ?q" "?la \<noteq> ?q"
    using dist disj qc by (auto simp: l)
  have "\<exists>s'. splice (Suc stk) s a v = Some s' \<and> root s' = root s \<and>
      (\<forall>x. deref (heap s') x =
        (if x = ?b then Some \<lparr>right = ptr r, left = ptr l, parent = Some ?q, val = v\<rparr>
         else if x = a then None
         else if x = ?q then repoint None ?c (Some ?b)
         else if Some x = ptr l \<or> Some x = ptr r
           then map_option (\<lambda>n. n\<lparr>parent := Some ?b\<rparr>) (deref ?h x)
         else deref ?h x))"
  proof (cases r)
    case Tip
    show ?thesis
    proof (cases f)
      case (InL z rz)
      with nd ln la ne nr pn Tip show ?thesis
        by (simp add: splice_def rebuild_def adopt_def set_parent_def release_left_def
            release_right_def reset_left_def reset_def new_def node4_def
            destroy_childless deref_update free_def l)
    next
      case (InR lz z)
      from left_is_node [OF assms(1) pr] pr pn have "ptr lz \<noteq> Some a"
        by (auto simp: InR)
      with nd ln la ne nr pn Tip InR show ?thesis
        by (simp add: splice_def rebuild_def adopt_def set_parent_def release_left_def
            release_right_def reset_right_def reset_def new_def node4_def
            destroy_childless deref_update free_def l)
    qed
  next
    case (Fork rl yr rr)
    let ?ra = "fst yr"
    from tr have rn: "deref ?h ?ra =
        Some \<lparr>right = ptr rr, left = ptr rl, parent = Some a, val = snd yr\<rparr>"
      by (simp add: Fork)
    have ra: "?ra < ?b" "?ra \<noteq> a" "?ra \<noteq> ?la" "?ra \<noteq> ?q"
      using rn dist disj qc by (auto simp: l Fork dest: deref_Some_less)
    show ?thesis
    proof (cases f)
      case (InL z rz)
      with nd ln la ne nr pn rn ra Fork show ?thesis
        by (simp add: splice_def rebuild_def adopt_def set_parent_def release_left_def
            release_right_def reset_left_def reset_def new_def node4_def
            destroy_childless deref_update free_def l)
    next
      case (InR lz z)
      from left_is_node [OF assms(1) pr] pr pn have "ptr lz \<noteq> Some a"
        by (auto simp: InR)
      with nd ln la ne nr pn rn ra Fork InR show ?thesis
        by (simp add: splice_def rebuild_def adopt_def set_parent_def release_left_def
            release_right_def reset_right_def reset_def new_def node4_def
            destroy_childless deref_update free_def l)
    qed
  qed
  then obtain s' where run: "splice (Suc stk) s a v = Some s'" and rs: "root s' = root s"
    and m': "\<And>x. deref (heap s') x =
        (if x = ?b then Some \<lparr>right = ptr r, left = ptr l, parent = Some ?q, val = v\<rparr>
         else if x = a then None
         else if x = ?q then repoint None ?c (Some ?b)
         else if Some x = ptr l \<or> Some x = ptr r
           then map_option (\<lambda>n. n\<lparr>parent := Some ?b\<rparr>) (deref ?h x)
         else deref ?h x)"
    by blast
  have lr_addrs: "set (addrs l) \<union> set (addrs r) \<subseteq> set (addrs (Fork l (a, e) r))"
    by auto
  have sub: "tree_at (deref (heap s')) (Some ?b) t"
    if t: "tree_at (deref ?h) (Some a) t" and tlr: "t = l \<or> t = r" for t
  proof (cases t)
    case Tip
    then show ?thesis by simp
  next
    case (Fork tl y tr)
    have inner: "set (addrs tl) \<union> set (addrs tr) \<subseteq> set (addrs l) \<union> set (addrs r)"
      and dt: "distinct (addrs t)"
      and roots: "\<forall>x \<in> set (addrs tl) \<union> set (addrs tr). Some x \<noteq> ptr l \<and> Some x \<noteq> ptr r"
      using tlr Fork dist by (cases l; cases r; auto)+
    show ?thesis
      unfolding Fork
    proof (rule tree_at_reparent)
      show "tree_at (deref ?h) (Some a) (Fork tl y tr)"
        using t Fork by simp
      show "distinct (addrs (Fork tl y tr))"
        using dt Fork by simp
      show "deref (heap s') x = deref ?h x" if "x \<in> set (addrs tl) \<union> set (addrs tr)" for x
      proof -
        from that inner have "x \<in> set (addrs (Fork l (a, e) r))" "x \<noteq> a"
          using dist by auto
        with that roots fresh disj qc show ?thesis
          by (auto simp: m')
      qed
      have "fst y \<in> set (addrs (Fork l (a, e) r))" "fst y \<noteq> a"
        "Some (fst y) = ptr l \<or> Some (fst y) = ptr r"
        using tlr Fork dist by auto
      moreover from this(1) have "fst y \<noteq> ?b" "fst y \<noteq> ?q"
        using fresh disj qc by auto
      moreover have "deref ?h (fst y) =
          Some \<lparr>right = ptr tr, left = ptr tl, parent = Some a, val = snd y\<rparr>"
        using t Fork by simp
      ultimately show "deref (heap s') (fst y) =
          Some \<lparr>right = ptr tr, left = ptr tl, parent = Some ?b, val = snd y\<rparr>"
        by (simp add: m')
    qed
  qed
  have "ctx_at (deref (heap s')) None ?c (Some ?b)"
  proof (rule ctx_at_repoint [OF ctx dc])
    show "deref (heap s') x = deref ?h x" if "x \<in> set (ctx_addrs ?c)" "x \<noteq> ?q" for x
    proof -
      from that disj have "x \<notin> set (addrs (Fork l (a, e) r))"
        by auto
      then have "x \<noteq> a" "Some x \<noteq> ptr l" "Some x \<noteq> ptr r"
        using ptr_in_addrs [of l x] ptr_in_addrs [of r x] by auto
      with that fresh show ?thesis
        by (auto simp: m')
    qed
    show "deref (heap s') ?q = repoint None ?c (Some ?b)"
      using la ne by (simp add: m')
  qed
  moreover have "tree_at (deref (heap s')) (Some ?q) (Fork l (?b, v) r)"
    using sub [OF tl] sub [OF tr] by (simp add: m')
  moreover have "root s' = ptr (plug ?c (Fork l (?b, v) r))"
    using wf_plugD(1) [OF assms(1)] ptr_plug [of f cs] rs by simp
  moreover have "set (ctx_addrs ?c) \<inter> set (addrs (Fork l (?b, v) r)) = {}"
    and "distinct (addrs (Fork l (?b, v) r))"
    using disj dist fresh by auto
  ultimately have "wf s' (plug ?c (Fork l (?b, v) r))"
    using dc unfolding wf_plug by simp
  with run show ?thesis
    by blast
qed

lemma splice_wf:
  assumes "wf s (plug c (Fork l (a, e) r))" and "l \<noteq> Tip"
  shows "\<exists>s'. splice (Suc stk) s a v = Some s' \<and> wf s' (plug c (Fork l (length (heap s), v) r))"
proof (cases c)
  case Nil
  with splice_root [of s l a e r stk v] assms show ?thesis
    by simp
next
  case (Cons f cs)
  with splice_inner [of s f cs l a e r stk v] assms show ?thesis
    by simp
qed

subsection \<open>What \<^verbatim>\<open>erase\<close> does\<close>

lemma erase_two_children:
  assumes "asymp op" and "wf s (plug c (Fork l (a, e) r))"
    and "bst_ord op (plug c (Fork l (a, e) r))" and "l \<noteq> Tip" and "r \<noteq> Tip"
  shows "\<exists>s' t'. erase (Suc stk) op (fst e) s = Some s' \<and> wf s' t' \<and>
    entries_of t' = map snd (before c) @ entries_of l @ entries_of r @ map snd (after c)"
proof -
  let ?h = "heap s"
  let ?t = "plug c (Fork l (a, e) r)"
  from leftmost_plug [OF assms(5)] obtain cm x rm where r: "r = plug cm (Fork Tip x rm)"
    and bc: "before cm = []" and fx: "fst x = first_addr r"
    by blast
  obtain bm ev where x: "x = (bm, ev)"
    by (cases x)
  let ?c' = "cm @ InR l (a, e) # c"
  have t: "?t = plug ?c' (Fork Tip (bm, ev) rm)"
    by (simp add: plug_append r x)
  have "(a, fst e, snd e) \<in> set (inorder ?t)"
    by (simp add: inorder_plug)
  from priv_find_present [OF assms(1,2,3) this]
  have find: "priv_find op s (fst e) = Some (Some a)" .
  note nd = node_at_hole [OF assms(2)]
  obtain ra where ra: "ptr r = Some ra"
    using assms(5) by (cases r) auto
  from wf_plugD(3) [OF assms(2)] have "tree_at (deref ?h) (Some a) r"
    by simp
  from leftmost_tree [OF this ra] have lm: "priv_inorder ?h ra = Some bm"
    using fx by (simp add: priv_inorder_def x)
  from assms(2) have w': "wf s (plug ?c' (Fork Tip (bm, ev) rm))"
    by (simp only: t)
  from node_at_hole [OF w'] have ind: "deref ?h bm =
      Some \<lparr>right = ptr rm, left = None, parent = hole_parent None ?c', val = ev\<rparr>"
    by simp
  from assms(3) have "bst_ord op (plug ?c' (Fork Tip (bm, ev) rm))"
    by (simp only: t)
  from erase_simple [OF assms(1) w' this] obtain s1 where e1: "erase (Suc stk) op (fst ev) s = Some s1"
    and w1: "wf s1 (plug ?c' rm)"
    by auto
  from w1 have "wf s1 (plug c (Fork l (a, e) (plug cm rm)))"
    by (simp add: plug_append)
  from splice_wf [OF this assms(4), of stk ev] obtain s' where sp: "splice (Suc stk) s1 a ev = Some s'"
    and w2: "wf s' (plug c (Fork l (length (heap s1), ev) (plug cm rm)))"
    by blast
  have lne: "ptr l \<noteq> None"
    using assms(4) by simp
  have "erase (Suc stk) op (fst e) s = Some s'"
    using find nd ra lm ind e1 sp lne by (subst erase.simps) simp
  moreover have "entries_of (plug c (Fork l (length (heap s1), ev) (plug cm rm))) =
      map snd (before c) @ entries_of l @ entries_of r @ map snd (after c)"
    by (simp add: entries_of_plug r x bc)
  ultimately show ?thesis
    using w2 by blast
qed

lemma erase_wf:
  assumes "asymp op" and "wf s (plug c (Fork l (a, e) r))"
    and "bst_ord op (plug c (Fork l (a, e) r))"
  shows "\<exists>s' t'. erase (Suc stk) op (fst e) s = Some s' \<and> wf s' t' \<and>
    entries_of t' = map snd (before c) @ entries_of l @ entries_of r @ map snd (after c)"
proof (cases "l = Tip \<or> r = Tip")
  case True
  from erase_simple [OF assms True] obtain s' where "erase (Suc stk) op (fst e) s = Some s'"
    and "wf s' (plug c (if l = Tip then r else l))"
    by blast
  moreover have "entries_of (plug c (if l = Tip then r else l)) =
      map snd (before c) @ entries_of l @ entries_of r @ map snd (after c)"
    using True by (auto simp: entries_of_plug)
  ultimately show ?thesis
    by blast
next
  case False
  with erase_two_children [OF assms] show ?thesis
    by simp
qed

subsection \<open>The spine\<close>

lemma deref_spine:
  "deref (heap (spine n)) i = (if i < n then Some (spine_node n i) else None)"
  by (simp add: spine_def deref_def)

lemma addrs_chain: "k \<le> n \<Longrightarrow> set (addrs (chain n k)) = {n - k..<n}"
  by (induction k) auto

lemma distinct_chain: "k \<le> n \<Longrightarrow> distinct (addrs (chain n k))"
  by (induction k) (auto simp: addrs_chain)

lemma ptr_chain: "ptr (chain n k) = (if k = 0 then None else Some (n - k))"
  by (cases k) auto

lemma tree_at_chain:
  "k \<le> n \<Longrightarrow>
    tree_at (deref (heap (spine n))) (if n - k = 0 then None else Some (n - k - 1)) (chain n k)"
proof (induction k)
  case 0
  show ?case by simp
next
  case (Suc k)
  define m where "m = deref (heap (spine n))"
  have m: "m i = (if i < n then Some (spine_node n i) else None)" for i
    by (simp add: m_def deref_spine)
  from Suc have "tree_at m (Some (n - Suc k)) (chain n k)"
    by (auto simp: Suc_diff_Suc m_def)
  moreover have "Suc (n - Suc k) = n - k" "(Suc (n - Suc k) < n) = (k \<noteq> 0)"
    using Suc.prems by auto
  ultimately have "tree_at m (if n - Suc k = 0 then None else Some (n - Suc k - 1))
      (chain n (Suc k))"
    using Suc.prems by (simp add: m spine_node_def ptr_chain)
  then show ?case
    by (simp only: m_def)
qed

lemma wf_spine: "wf (spine n) (chain n n)"
  using tree_at_chain [of n n] distinct_chain [of n n]
  by (simp add: wf_def ptr_chain) (simp add: spine_def)

lemma keys_chain: "k \<le> n \<Longrightarrow> y \<in> set (keys_of (chain n k)) \<Longrightarrow> int (n - k) \<le> y"
proof (induction k)
  case 0
  then show ?case by simp
next
  case (Suc k)
  then show ?case
    by (cases "y = int (n - Suc k)") auto
qed

lemma bst_ord_chain: "k \<le> n \<Longrightarrow> bst_ord (<) (chain n k)"
proof (induction k)
  case 0
  show ?case by simp
next
  case (Suc k)
  have "int (n - Suc k) < y" if "y \<in> set (keys_of (chain n k))" for y
    using keys_chain [of k n y] that Suc.prems by simp
  with Suc show ?case
    by simp
qed

lemma length_chain: "length (entries_of (chain n k)) = k"
  by (induction k) auto

lemma height_chain: "height (chain n k) = k"
  by (induction k) auto

subsection \<open>Trees higher than the stack has room for\<close>

lemma balance_deep:
  assumes "wf s t" and "stk < height t"
  shows "balance stk op s = None"
  using entries_wf [OF assms(1)] clear_deep [OF assms]
  by (simp add: balance_def)

text \<open>No tree is lower than the median-first tree of its entries.\<close>

lemma size_height: "length (inorder t) < 2 ^ height t"
proof (induction t)
  case Tip
  show ?case by simp
next
  case (Fork l x r)
  define m where "m = max (height l) (height r)"
  have "(2::nat) ^ height l \<le> 2 ^ m" "(2::nat) ^ height r \<le> 2 ^ m"
    by (rule power_increasing; simp add: m_def)+
  with Fork.IH have "length (inorder l) < 2 ^ m" "length (inorder r) < 2 ^ m"
    by linarith+
  moreover have "length (inorder (Fork l x r)) = Suc (length (inorder l) + length (inorder r))"
    by simp
  moreover have "(2::nat) ^ height (Fork l x r) = 2 * 2 ^ m"
    by (simp add: m_def)
  ultimately show ?case
    by linarith
qed

lemma height_build_le: "height (build (entries_of t)) \<le> height t"
proof (cases "entries_of t = []")
  case True
  then show ?thesis by simp
next
  case False
  from height_build [OF False] have "(2::nat) ^ height (build (entries_of t)) \<le> 2 * length (inorder t)"
    by (simp add: entries_of_def)
  also have "\<dots> < 2 * 2 ^ height t"
    using size_height [of t] by simp
  finally have "(2::nat) ^ height (build (entries_of t)) < 2 ^ Suc (height t)"
    by simp
  then have "height (build (entries_of t)) < Suc (height t)"
    by (rule power_less_imp_less_exp [rotated]) simp
  then show ?thesis
    by simp
qed

subsection \<open>Sizes beyond the range of the indices\<close>

lemma priv_balance_overflow:
  assumes "2 ^ 30 < m"
  shows "0 \<le> i \<Longrightarrow> i < m \<Longrightarrow> priv_balance stk op xs i m s = None"
proof (induction "nat (m - i)" arbitrary: i s rule: less_induct)
  case less
  show ?case
  proof (cases "INT_MAX < i + m")
    case True
    with less.prems show ?thesis
      by (subst priv_balance.simps) simp
  next
    case False
    let ?mid = "half (i + m)"
    have mid: "?mid = (i + m) div 2"
      using less.prems by (simp add: half_def)
    from False assms have "i + 2 < m"
      by (simp add: INT_MAX_def)
    then have lt: "?mid + 1 < m" and ge: "0 \<le> ?mid + 1" and gt: "i < ?mid + 1"
      using less.prems by (simp_all add: mid)
    have "priv_balance stk op xs (?mid + 1) m s' = None" for s'
      using ge lt gt by (intro less.hyps) simp_all
    then show ?thesis
      using less.prems
      by (subst priv_balance.simps)
        (auto simp add: Let_def bind_eq_None_conv split: prod.splits)
  qed
qed

lemma balance_overflow:
  assumes "2 ^ 30 < int_of_size (length (entries_of t))" and "wf s t"
  shows "balance stk op s = None"
proof -
  have "priv_balance stk op (entries_of t) 0 (int_of_size (length (entries_of t))) s1 = None" for s1
    using assms(1) by (intro priv_balance_overflow) simp_all
  then show ?thesis
    using entries_wf [OF assms(2)] by (simp add: balance_def bind_eq_None_conv)
qed

section \<open>The claims\<close>

subsection \<open>Examples\<close>

lemma strict_weak_abs_less: "strict_weak_ordering abs_less"
  by (simp add: strict_weak_ordering_def abs_less_def)

lemma asymp_abs_less: "asymp abs_less"
  by (rule asympI) (simp add: abs_less_def)

lemma asymp_int_less: "asymp ((<) :: int \<Rightarrow> int \<Rightarrow> bool)"
  by (rule asympI) simp

lemma transp_int_less: "transp ((<) :: int \<Rightarrow> int \<Rightarrow> bool)"
  by (rule transpI) simp

lemma wf_ex_one: "wf ex_one ex_one_tree"
  by (simp add: wf_def ex_one_def ex_one_tree_def deref_def)

lemma wf_ex_bst: "wf ex_bst ex_tree"
  by (simp add: wf_def ex_bst_def ex_tree_def deref_def)

lemma bst_ord_ex_tree: "bst_ord (<) ex_tree"
  by (simp add: ex_tree_def)

text \<open>The spine is what \<^verbatim>\<open>insert\<close> builds from keys in ascending order.\<close>

lemma insert_all_spine:
  "insert_all 0 (<) [(0, ()), (1, ()), (2, ()), (3, ()), (4, ())] empty_bst = Some (spine 5)"
  by code_simp

subsection \<open>C1: \<^verbatim>\<open>erase\<close>\<close>

text \<open>
  C1: in a tree that satisfies the parent-consistency invariant (\<open>wf\<close>) and the ordering
  invariant (\<open>bst_ord\<close>), for a key \<open>k\<close> that is present (at the node \<open>a\<close>, with the
  value \<open>v\<close>), \<^verbatim>\<open>erase(k)\<close> returns; the tree after it satisfies both invariants again;
  its entries in order are those before the call with \<open>(k, v)\<close> taken out, every other
  entry with its key and value in the same relative order; and the key \<open>k\<close> is not in the
  tree any more. The theorem is about every node, whether it has no child, one or two.
  A node that \<^verbatim>\<open>erase\<close> deletes has given up its children before, so its destructor calls
  no other: room on the stack for one call of the destructor, \<open>Suc stk\<close>, is enough.
\<close>

theorem C1_erase:
  assumes "asymp op" and "transp op" and "wf s t" and "bst_ord op t"
    and "(a, k, v) \<in> set (inorder t)"
  shows "\<exists>s' t' xs ys. erase (Suc stk) op k s = Some s' \<and> wf s' t' \<and> bst_ord op t' \<and>
    entries_of t = xs @ (k, v) # ys \<and> entries_of t' = xs @ ys \<and> k \<notin> set (keys_of t')"
proof -
  from in_tree_plug [OF assms(5)] obtain c l r where t: "t = plug c (Fork l (a, k, v) r)"
    by blast
  let ?xs = "map snd (before c) @ entries_of l"
  let ?ys = "entries_of r @ map snd (after c)"
  from erase_wf [of op s c l a "(k, v)" r stk] assms(1,3,4) obtain s' t'
    where e: "erase (Suc stk) op k s = Some s'" and w: "wf s' t'" and n: "entries_of t' = ?xs @ ?ys"
    by (auto simp: t)
  have o: "entries_of t = ?xs @ (k, v) # ?ys"
    by (simp add: t entries_of_plug)
  from bst_sorted [OF assms(2,4)] have sorted: "sorted_wrt op (map fst (?xs @ (k, v) # ?ys))"
    by (simp only: keys_entries o)
  then have "sorted_wrt op (keys_of t')"
    unfolding keys_entries n by (auto simp: sorted_wrt_append)
  then have b: "bst_ord op t'"
    by (rule sorted_bst)
  have 1: "op x k" if "x \<in> set (map fst ?xs)" for x
    using sorted that by (auto simp: sorted_wrt_append)
  have 2: "op k x" if "x \<in> set (map fst ?ys)" for x
    using sorted that by (auto simp: sorted_wrt_append)
  have 3: "\<not> op k k"
    using assms(1) by (auto dest: asympD)
  have "k \<notin> set (map fst ?xs)" "k \<notin> set (map fst ?ys)"
    using 1 [of k] 2 [of k] 3 by blast+
  then have "k \<notin> set (keys_of t')"
    unfolding keys_entries n by simp
  with e w b o n show ?thesis
    by blast
qed

theorem C1_erase_witness:
  "asymp ((<) :: int \<Rightarrow> int \<Rightarrow> bool) \<and> transp ((<) :: int \<Rightarrow> int \<Rightarrow> bool) \<and>
   wf ex_bst ex_tree \<and> bst_ord (<) ex_tree \<and> (0, 5, ''a'') \<in> set (inorder ex_tree) \<and>
   (\<exists>s' t' xs ys. erase (Suc 0) (<) 5 ex_bst = Some s' \<and> wf s' t' \<and> bst_ord (<) t' \<and>
      entries_of ex_tree = xs @ (5, ''a'') # ys \<and> entries_of t' = xs @ ys \<and>
      5 \<notin> set (keys_of t')) \<and>
   Option.bind (erase (Suc 0) (<) 5 ex_bst) entries =
     Some [(1, ''d''), (3, ''b''), (4, ''e''), (7, ''f''), (8, ''c''), (9, ''g'')]"
proof -
  have m: "(0, 5, ''a'') \<in> set (inorder ex_tree)"
    by (simp add: ex_tree_def)
  have e: "Option.bind (erase (Suc 0) (<) 5 ex_bst) entries =
      Some [(1, ''d''), (3, ''b''), (4, ''e''), (7, ''f''), (8, ''c''), (9, ''g'')]"
    by code_simp
  show ?thesis
    using C1_erase [OF asymp_int_less transp_int_less wf_ex_bst bst_ord_ex_tree m, where stk = 0]
      asymp_int_less transp_int_less wf_ex_bst bst_ord_ex_tree m e
    by blast
qed

subsection \<open>C2: insertions keep the ordering invariant\<close>



subsection \<open>C3: what \<^verbatim>\<open>find\<close> does at a node with an equivalent key\<close>

text \<open>
  C3 says that \<^verbatim>\<open>find(k)\<close> returns an iterator to the node it has reached as soon as the
  key of that node is unordered with \<open>k\<close> either way, without a test for equality. It is
  false: in the tree that holds the key \<open>3\<close>, ordered by absolute value, the search for
  \<open>- 3\<close> starts at the root; \<open>- 3\<close> and \<open>3\<close> are unordered either way, and the result is the
  end iterator, not the root.
\<close>

theorem C3_find_equivalent_counterexample:
  "bst.root ex_one = Some 0 \<and> deref (heap ex_one) 0 = Some (node2 (3, ''a'') None) \<and>
   \<not> abs_less (- 3) 3 \<and> \<not> abs_less 3 (- 3) \<and>
   find_bst abs_less ex_one (- 3) = Some None \<and>
   find_bst abs_less ex_one (- 3) \<noteq> Some (Some 0)"
  by (simp add: find_bst_def priv_find_def find_loop.simps ex_one_def deref_def abs_less_def
      node2_def)

text \<open>
  C3 as amended: \<^verbatim>\<open>find(k)\<close> descends from the root comparing \<open>k\<close> to the key of each
  visited node with the comparator. When it reaches a node whose key is unordered with \<open>k\<close>
  either way, it returns an iterator to that node if the two keys are equal under \<^verbatim>\<open>==\<close>,
  and the end iterator if they are not. Here the node reached is the one at the hole of the
  context \<open>c\<close>, and \<open>fits op c k\<close> says that the comparisons lead the descent there.
\<close>

theorem C3_find_at_equivalent_node:
  assumes "asymp op" and "wf s (plug c (Fork l (a, k', v) r))" and "fits op c k"
    and "\<not> op k k'" and "\<not> op k' k"
  shows "find_bst op s k = Some (if k' = k then Some a else None)"
proof -
  from assms(2) have t: "tree_at (deref (heap s)) None (plug c (Fork l (a, k', v) r))"
    and r: "root s = ptr (plug c (Fork l (a, k', v) r))"
    by (simp_all add: wf_def)
  from t have "deref (heap s) a = Some \<lparr>right = ptr r, left = ptr l,
      parent = hole_parent None c, val = (k', v)\<rparr>"
    by (simp add: tree_at_plug)
  then have "find_loop op (heap s) k (Some a) = Some (if k' = k then Some a else None)"
    using assms(4,5) by (subst find_loop.simps) simp
  with find_loop_plug [OF assms(1) t assms(3)]
  have "find_loop op (heap s) k (root s) = Some (if k' = k then Some a else None)"
    by (simp add: r)
  moreover have "root s \<noteq> None"
    using r by simp
  ultimately show ?thesis
    by (simp add: find_bst_def priv_find_def)
qed

theorem C3_find_at_equivalent_node_witness:
  "asymp ((<) :: int \<Rightarrow> int \<Rightarrow> bool) \<and>
   wf ex_bst (plug [InR (Fork Tip (3, 1, ''d'') Tip) (1, 3, ''b''),
                    InL (0, 5, ''a'') (Fork (Fork Tip (5, 7, ''f'') Tip) (2, 8, ''c'')
                      (Fork Tip (6, 9, ''g'') Tip))]
               (Fork Tip (4, 4, ''e'') Tip)) \<and>
   find_bst (<) ex_bst 4 = Some (Some 4)"
proof -
  let ?c = "[InR (Fork Tip (3, 1, ''d'') Tip) (1, 3, ''b''),
             InL (0, 5, ''a'') (Fork (Fork Tip (5, 7, ''f'') Tip) (2, 8, ''c'')
               (Fork Tip (6, 9, ''g'') Tip))]"
  have p: "plug ?c (Fork Tip (4, 4, ''e'') Tip) = ex_tree"
    by (simp add: ex_tree_def)
  have w: "wf ex_bst (plug ?c (Fork Tip (4, 4, ''e'') Tip))"
    unfolding p by (rule wf_ex_bst)
  have f: "fits (<) ?c (4::int)"
    by simp
  show ?thesis
    using C3_find_at_equivalent_node [OF asymp_int_less w f] asymp_int_less w by simp
qed

subsection \<open>C4: inserting a key that is present\<close>

text \<open>
  C4: in a tree that satisfies the invariants, \<^verbatim>\<open>insert\<close> of an entry whose key \<open>k\<close> is
  present, at the node \<open>a\<close> with the value \<open>v\<close>, returns the iterator to \<open>a\<close> and
  \<^verbatim>\<open>false\<close>, and the state after the call is the state before it: no node is made,
  changed or moved, and the stored value stays \<open>v\<close>.
\<close>

theorem C4_insert_present:
  assumes "asymp op" and "wf s t" and "bst_ord op t" and "(a, k, v) \<in> set (inorder t)"
  shows "insert_bst stk op (k, v') s = Some ((Some a, False), s)"
proof -
  from assms(2) have t: "tree_at (deref (heap s)) None t" and r: "root s = ptr t"
    by (simp_all add: wf_def)
  from find_present [OF assms(1) t assms(3,4)]
  have "find_loop op (heap s) k (root s) = Some (Some a)"
    by (simp add: r)
  moreover from assms(4) have "t \<noteq> Tip"
    by auto
  ultimately have "priv_find op s k = Some (Some a)"
    using r by (simp add: priv_find_def)
  then show ?thesis
    by (simp add: insert_bst_def priv_insert_def)
qed

theorem C4_insert_present_witness:
  "asymp ((<) :: int \<Rightarrow> int \<Rightarrow> bool) \<and> wf ex_bst ex_tree \<and> bst_ord (<) ex_tree \<and>
   (4, 4, ''e'') \<in> set (inorder ex_tree) \<and>
   insert_bst 0 (<) (4, ''new'') ex_bst = Some ((Some 4, False), ex_bst)"
proof -
  have m: "(4, 4, ''e'') \<in> set (inorder ex_tree)"
    by (simp add: ex_tree_def)
  show ?thesis
    using C4_insert_present [OF asymp_int_less wf_ex_bst bst_ord_ex_tree m, of 0 "''new''"]
      asymp_int_less wf_ex_bst bst_ord_ex_tree m
    by simp
qed

subsection \<open>C5: \<^verbatim>\<open>balance\<close>\<close>

text \<open>
  C5 says that \<^verbatim>\<open>balance()\<close> keeps the entries of every tree and leaves it with a height
  of at most \<open>\<lceil>log\<^sub>2 (n + 1)\<rceil>\<close>, whatever the shape of the tree before the call.
  \<^verbatim>\<open>balance()\<close> calls \<^verbatim>\<open>clear()\<close>, which deletes the root; the destructor of a node runs
  the destructors of its children, so these calls nest as deep as the tree is high, and the
  call stack is finite. Whatever the number \<open>stk\<close> of nested calls for which the stack has
  room, the tree \<open>spine (Suc stk)\<close>, in which each of the \<open>Suc stk\<close> nodes is the right
  child of the one before, satisfies both invariants, and a loop over it visits its entries;
  but \<^verbatim>\<open>clear()\<close> on it does not return, and so \<^verbatim>\<open>balance()\<close> does not return either and
  leaves no tree of the promised height.
\<close>

theorem C5_balance_counterexample:
  "\<forall>stk. wf (spine (Suc stk)) (chain (Suc stk) (Suc stk)) \<and>
     bst_ord (<) (chain (Suc stk) (Suc stk)) \<and>
     entries (spine (Suc stk)) = Some (entries_of (chain (Suc stk) (Suc stk))) \<and>
     height (chain (Suc stk) (Suc stk)) = Suc stk \<and>
     clear stk (spine (Suc stk)) = None \<and>
     balance stk (<) (spine (Suc stk)) = None"
proof
  fix stk
  let ?t = "chain (Suc stk) (Suc stk)"
  have w: "wf (spine (Suc stk)) ?t"
    by (rule wf_spine)
  have b: "bst_ord (<) ?t"
    by (rule bst_ord_chain) (rule order_refl)
  have h: "height ?t = Suc stk"
    by (rule height_chain)
  then have "stk < height ?t"
    by simp
  from clear_deep [OF w this] balance_deep [OF w this] w b h entries_wf [OF w]
  show "wf (spine (Suc stk)) ?t \<and> bst_ord (<) ?t \<and>
     entries (spine (Suc stk)) = Some (entries_of ?t) \<and> height ?t = Suc stk \<and>
     clear stk (spine (Suc stk)) = None \<and> balance stk (<) (spine (Suc stk)) = None"
    by simp
qed

text \<open>
  C5 as amended: for a tree that satisfies the invariants, has at most \<open>2\<^sup>3\<^sup>0\<close> entries (up
  to this size the sum \<^verbatim>\<open>start + end\<close> of the \<^verbatim>\<open>int\<close> indices stays in the range of
  \<^verbatim>\<open>int\<close>; beyond it, see \<open>balance_overflow\<close>) and is at most as high as the number of
  nested calls of the destructor for which the stack has room, \<^verbatim>\<open>balance()\<close> returns; the
  tree after it satisfies the invariants, holds the same entries in the same order (so the
  same set of pairs, and the same sequence under iteration), and its height, counted in
  nodes, is at most \<open>\<lceil>log\<^sub>2 (n + 1)\<rceil>\<close> for \<open>n\<close> entries, whatever the shape before the call.
\<close>

theorem C5_balance:
  assumes "asymp op" and "transp op" and "wf s t" and "bst_ord op t"
    and "length (entries_of t) \<le> 2 ^ 30" and "height t \<le> stk"
  shows "\<exists>s' t'. balance stk op s = Some s' \<and> wf s' t' \<and> bst_ord op t' \<and>
    entries_of t' = entries_of t \<and> set (entries_of t') = set (entries_of t) \<and>
    entries s' = entries s \<and>
    int (height t') \<le> \<lceil>log 2 (real (length (entries_of t)) + 1)\<rceil>"
proof -
  from balance_wf [OF assms] obtain s' t' where b: "balance stk op s = Some s'" and w: "wf s' t'"
    and o: "bst_ord op t'" and e: "entries_of t' = entries_of t"
    and st: "strip t' = build (entries_of t)"
    by blast
  have "height t' = height (build (entries_of t))"
    using st height_strip [of t'] by simp
  then have "int (height t') \<le> \<lceil>log 2 (real (length (entries_of t)) + 1)\<rceil>"
    using height_build_log [of "entries_of t"] by simp
  moreover have "entries s' = entries s"
    using entries_wf [OF w] entries_wf [OF assms(3)] e by simp
  ultimately show ?thesis
    using b w o e by auto
qed

text \<open>
  The tree of the five keys \<open>0, \<dots>, 4\<close> inserted in ascending order is five nodes high;
  \<^verbatim>\<open>balance()\<close> turns it into a tree of height three.
\<close>

theorem C5_balance_witness:
  "asymp ((<) :: int \<Rightarrow> int \<Rightarrow> bool) \<and> transp ((<) :: int \<Rightarrow> int \<Rightarrow> bool) \<and>
   wf (spine 5) (chain 5 5) \<and> bst_ord (<) (chain 5 5) \<and>
   length (entries_of (chain 5 5)) \<le> 2 ^ 30 \<and> height (chain 5 5) \<le> 5 \<and>
   (\<exists>s' t'. balance 5 (<) (spine 5) = Some s' \<and> wf s' t' \<and> bst_ord (<) t' \<and>
      entries_of t' = entries_of (chain 5 5) \<and>
      set (entries_of t') = set (entries_of (chain 5 5)) \<and>
      entries s' = entries (spine 5) \<and>
      int (height t') \<le> \<lceil>log 2 (real (length (entries_of (chain 5 5))) + 1)\<rceil>) \<and>
   Option.bind (balance 5 (<) (spine 5)) (\<lambda>s. snapshot (heap s) (root s)) =
     Some (Fork (Fork (Fork Tip (0, ()) Tip) (1, ()) Tip) (2, ())
             (Fork (Fork Tip (3, ()) Tip) (4, ()) Tip))"
proof -
  have b: "bst_ord (<) (chain 5 5)"
    by (rule bst_ord_chain) (rule order_refl)
  have n: "length (entries_of (chain 5 5)) \<le> 2 ^ 30"
    by (simp add: length_chain)
  have h: "height (chain 5 5) \<le> 5"
    by (simp add: height_chain)
  have e: "Option.bind (balance 5 (<) (spine 5)) (\<lambda>s. snapshot (heap s) (root s)) =
     Some (Fork (Fork (Fork Tip (0, ()) Tip) (1, ()) Tip) (2, ())
             (Fork (Fork Tip (3, ()) Tip) (4, ()) Tip))"
    by code_simp
  show ?thesis
    using C5_balance [OF asymp_int_less transp_int_less wf_spine b n h]
      asymp_int_less transp_int_less wf_spine [of 5] b n h e
    by blast
qed

subsection \<open>C6: termination of \<^verbatim>\<open>insert\<close>\<close>

text \<open>
  C6 says that \<^verbatim>\<open>insert\<close> terminates for every tree and entry when the comparator is a
  strict weak ordering. The loop of \<^verbatim>\<open>_insert\<close> has no branch for a key that is unordered
  with the key of the current node either way: \<^verbatim>\<open>tmp\<close> stays, and the loop runs forever.
  \<^verbatim>\<open>_find\<close> has returned the null pointer before, because the two keys are not equal.
  The ordering by absolute value is a strict weak ordering (\<open>strict_weak_abs_less\<close>);
  under it, the insertion of \<open>(3, ''a'')\<close> into the empty tree
  returns, and the insertion of \<open>(- 3, ''b'')\<close> into the result does not.
\<close>

theorem C6_insert_equivalent_key_diverges:
  "insert_bst stk abs_less (3, ''a'') empty_bst = Some ((Some 0, True), ex_one) \<and>
   insert_body abs_less (- 3, ''b'') (heap ex_one) 0 = Some (Again 0) \<and>
   insert_bst stk abs_less (- 3, ''b'') ex_one = None"
proof -
  have 1: "insert_bst stk abs_less (3, ''a'') empty_bst = Some ((Some 0, True), ex_one)"
    by (simp add: insert_bst_def priv_insert_def priv_find_def insert_loop.simps empty_bst_def
        new_def reset_def node2_def ex_one_def)
  have 2: "insert_body abs_less (- 3, ''b'') (heap ex_one) 0 = Some (Again 0)"
    by (simp add: insert_body_def insert_second_def ex_one_def deref_def abs_less_def)
  have "priv_find abs_less ex_one (- 3) = Some None"
    by (simp add: priv_find_def find_loop.simps ex_one_def deref_def abs_less_def)
  moreover have "insert_loop stk abs_less (- 3, ''b'') ex_one (Some 0) = None"
    by (rule insert_loop_stuck [where n = "node2 (3, ''a'') None"])
      (simp_all add: ex_one_def deref_def abs_less_def node2_def)
  ultimately have 3: "insert_bst stk abs_less (- 3, ''b'') ex_one = None"
    by (simp add: insert_bst_def priv_insert_def ex_one_def)
  show ?thesis
    using 1 2 3 by simp
qed

subsection \<open>C7: \<^verbatim>\<open>operator<<\<close>\<close>

text \<open>
  C7 says that the stream gets the keys in ascending order with a single space between
  two consecutive keys and nothing after the last key. The loop of \<^verbatim>\<open>operator<<\<close>
  writes \<^verbatim>\<open>i.first << " "\<close> for every entry, the last one too: for the tree with the
  single key \<open>3\<close> the stream gets the key and a space, not the key alone.
\<close>

theorem C7_stream_out_counterexample:
  "stream_out show_int [] ex_one = Some ''3 '' \<and> stream_out show_int [] ex_one \<noteq> Some ''3''"
  by (simp add: stream_out_wf [OF wf_ex_one] ex_one_tree_def show_int_def show_nat.simps)

text \<open>
  C7 as amended: streaming a tree that satisfies the invariants appends to the stream, for
  every key in ascending order of the comparator, the key followed by a single space (the
  last key too); no value and nothing else is written.
\<close>

theorem C7_stream_out:
  assumes "transp op" and "wf s t" and "bst_ord op t"
  shows "stream_out shw os s = Some (os @ concat (map (\<lambda>k. shw k @ '' '') (keys_of t))) \<and>
    sorted_wrt op (keys_of t)"
  using stream_out_wf [OF assms(2), of shw os] bst_sorted [OF assms(1,3)]
  by (simp add: keys_of_def entries_of_def comp_def)

theorem C7_stream_out_witness:
  "transp ((<) :: int \<Rightarrow> int \<Rightarrow> bool) \<and> wf ex_bst ex_tree \<and> bst_ord (<) ex_tree \<and>
   stream_out show_int ''keys: '' ex_bst = Some ''keys: 1 3 4 5 7 8 9 '' \<and>
   sorted_wrt (<) (keys_of ex_tree)"
  using C7_stream_out [OF transp_int_less wf_ex_bst bst_ord_ex_tree, of show_int "''keys: ''"]
    transp_int_less wf_ex_bst bst_ord_ex_tree
  by (simp add: ex_tree_def show_int_def show_nat.simps)

subsection \<open>C8: assigning a tree to itself\<close>

text \<open>
  C8 says that \<^verbatim>\<open>t = t\<close> leaves the entries of \<open>t\<close> as they are. The copy assignment
  starts with \<^verbatim>\<open>root.reset()\<close>, which deletes every node of \<^verbatim>\<open>*this\<close>; when \<open>x\<close> is
  \<^verbatim>\<open>*this\<close>, the copy constructor then copies an empty tree. For the tree with the
  entries 1, 3, 4, 5, 7, 8, 9 the loop over the tree visits seven entries before the
  assignment and none after it; the tree is three nodes high, and the stack has room for
  three nested calls of the destructor or more. The lemma \<open>self_assign_wf\<close> shows the same
  for every tree that the stack has room to delete.
\<close>

theorem C8_self_assign_empties:
  "entries ex_bst =
     Some [(1, ''d''), (3, ''b''), (4, ''e''), (5, ''a''), (7, ''f''), (8, ''c''), (9, ''g'')] \<and>
   self_assign (Suc (Suc (Suc stk))) ex_bst =
     Some \<lparr>root = None, heap = [None, None, None, None, None, None, None]\<rparr> \<and>
   entries \<lparr>root = None, heap = [None, None, None, None, None, None, None]\<rparr> =
     Some ([] :: (int \<times> string) list)"
proof -
  have 1: "entries ex_bst =
      Some [(1, ''d''), (3, ''b''), (4, ''e''), (5, ''a''), (7, ''f''), (8, ''c''), (9, ''g'')]"
    by (simp add: entries_wf [OF wf_ex_bst] ex_tree_def)
  have 2: "self_assign (Suc (Suc (Suc stk))) ex_bst =
      Some \<lparr>root = None, heap = [None, None, None, None, None, None, None]\<rparr>"
    by (simp add: self_assign_def copy_assign_def copy_ctor_def reset_def destroy.simps
        ex_bst_def deref_def free_def)
  have 3: "entries \<lparr>root = None, heap = [None, None, None, None, None, None, None]\<rparr> =
      Some ([] :: (int \<times> string) list)"
    by (simp add: entries_def begin_bst_def)
  show ?thesis
    using 1 2 3 by simp
qed

subsection \<open>C9: \<^verbatim>\<open>emplace\<close> and \<^verbatim>\<open>insert\<close>\<close>

text \<open>
  C9: \<^verbatim>\<open>emplace(args...)\<close> gives the result, iterator and flag, and the tree that
  \<^verbatim>\<open>insert\<close> gives on the pair built from the arguments; called with a key and a value,
  that is the insertion of the pair of the two.
\<close>

theorem C9_emplace_is_insert:
  "emplace stk op as s = insert_bst stk op (pair_type as) s \<and>
   emplace stk op (Key_Value k v) s = insert_bst stk op (k, v) s \<and>
   emplace stk op (Entry e) s = insert_bst stk op e s"
  by (simp add: emplace_def)

subsection \<open>C10: balancing twice\<close>

text \<open>
  C10 says that for every tree a second \<^verbatim>\<open>balance()\<close> gives the tree that the first one
  gave. For the tree \<open>spine (Suc stk)\<close>, which is one node higher than the stack has room
  for nested calls of the destructor, the first \<^verbatim>\<open>balance()\<close> does not return from
  \<^verbatim>\<open>clear()\<close>: neither one call nor two in succession give a tree.
\<close>

theorem C10_balance_twice_counterexample:
  "\<forall>stk. wf (spine (Suc stk)) (chain (Suc stk) (Suc stk)) \<and>
     bst_ord (<) (chain (Suc stk) (Suc stk)) \<and>
     balance stk (<) (spine (Suc stk)) = None \<and>
     Option.bind (balance stk (<) (spine (Suc stk))) (balance stk (<)) = None"
proof
  fix stk
  let ?t = "chain (Suc stk) (Suc stk)"
  have w: "wf (spine (Suc stk)) ?t"
    by (rule wf_spine)
  have b: "bst_ord (<) ?t"
    by (rule bst_ord_chain) (rule order_refl)
  have "stk < height ?t"
    by (simp add: height_chain)
  from balance_deep [OF w this] w b
  show "wf (spine (Suc stk)) ?t \<and> bst_ord (<) ?t \<and>
     balance stk (<) (spine (Suc stk)) = None \<and>
     Option.bind (balance stk (<) (spine (Suc stk))) (balance stk (<)) = None"
    by simp
qed

text \<open>
  C10 as amended: for a tree that satisfies the invariants, has at most \<open>2\<^sup>3\<^sup>0\<close> entries and
  is at most as high as the number of nested calls of the destructor for which the stack
  has room, \<^verbatim>\<open>balance()\<close> returns, a second \<^verbatim>\<open>balance()\<close> returns too, and the tree of
  entries that the pointers spell out from the root is the same after the second call as
  after the first: the same entries in nodes of the same arrangement. Iteration gives the
  same sequence as well.
\<close>

theorem C10_balance_idempotent:
  assumes "asymp op" and "transp op" and "wf s t" and "bst_ord op t"
    and "length (entries_of t) \<le> 2 ^ 30" and "height t \<le> stk"
  shows "\<exists>s1 s2 e. balance stk op s = Some s1 \<and> balance stk op s1 = Some s2 \<and>
    snapshot (heap s1) (root s1) = Some e \<and> snapshot (heap s2) (root s2) = Some e \<and>
    entries s2 = entries s1"
proof -
  from balance_wf [OF assms] obtain s1 t1 where b1: "balance stk op s = Some s1"
    and w1: "wf s1 t1" and o1: "bst_ord op t1" and e1: "entries_of t1 = entries_of t"
    and st1: "strip t1 = build (entries_of t)"
    by blast
  have "height t1 = height (build (entries_of t))"
    using st1 height_strip [of t1] by simp
  with height_build_le [of t] assms(6) have h1: "height t1 \<le> stk"
    by simp
  from assms(5) e1 have n1: "length (entries_of t1) \<le> 2 ^ 30"
    by simp
  from balance_wf [OF assms(1,2) w1 o1 n1 h1] obtain s2 t2
    where b2: "balance stk op s1 = Some s2" and w2: "wf s2 t2"
      and e2: "entries_of t2 = entries_of t1" and st2: "strip t2 = build (entries_of t1)"
    by blast
  have "snapshot (heap s1) (root s1) = Some (build (entries_of t))"
    using snapshot_wf [OF w1] st1 by simp
  moreover have "snapshot (heap s2) (root s2) = Some (build (entries_of t))"
    using snapshot_wf [OF w2] st2 e1 by simp
  moreover have "entries s2 = entries s1"
    using entries_wf [OF w1] entries_wf [OF w2] e2 by simp
  ultimately show ?thesis
    using b1 b2 by simp
qed

text \<open>
  The tree of the four keys \<open>0, \<dots>, 3\<close> inserted in ascending order: the first
  \<^verbatim>\<open>balance()\<close> changes its shape, the second one does not.
\<close>

theorem C10_balance_idempotent_witness:
  "asymp ((<) :: int \<Rightarrow> int \<Rightarrow> bool) \<and> transp ((<) :: int \<Rightarrow> int \<Rightarrow> bool) \<and>
   wf (spine 4) (chain 4 4) \<and> bst_ord (<) (chain 4 4) \<and>
   length (entries_of (chain 4 4)) \<le> 2 ^ 30 \<and> height (chain 4 4) \<le> 4 \<and>
   (\<exists>s1 s2 e. balance 4 (<) (spine 4) = Some s1 \<and> balance 4 (<) s1 = Some s2 \<and>
      snapshot (heap s1) (root s1) = Some e \<and> snapshot (heap s2) (root s2) = Some e \<and>
      entries s2 = entries s1) \<and>
   snapshot (heap (spine 4)) (root (spine 4)) =
     Some (Fork Tip (0, ()) (Fork Tip (1, ()) (Fork Tip (2, ()) (Fork Tip (3, ()) Tip)))) \<and>
   Option.bind (balance 4 (<) (spine 4)) (\<lambda>s. snapshot (heap s) (root s)) =
     Some (Fork (Fork (Fork Tip (0, ()) Tip) (1, ()) Tip) (2, ()) (Fork Tip (3, ()) Tip)) \<and>
   Option.bind (Option.bind (balance 4 (<) (spine 4)) (balance 4 (<)))
       (\<lambda>s. snapshot (heap s) (root s)) =
     Some (Fork (Fork (Fork Tip (0, ()) Tip) (1, ()) Tip) (2, ()) (Fork Tip (3, ()) Tip))"
proof -
  have b: "bst_ord (<) (chain 4 4)"
    by (rule bst_ord_chain) (rule order_refl)
  have n: "length (entries_of (chain 4 4)) \<le> 2 ^ 30"
    by (simp add: length_chain)
  have h: "height (chain 4 4) \<le> 4"
    by (simp add: height_chain)
  have e0: "snapshot (heap (spine 4)) (root (spine 4)) =
     Some (Fork Tip (0, ()) (Fork Tip (1, ()) (Fork Tip (2, ()) (Fork Tip (3, ()) Tip))))"
    by code_simp
  have e1: "Option.bind (balance 4 (<) (spine 4)) (\<lambda>s. snapshot (heap s) (root s)) =
     Some (Fork (Fork (Fork Tip (0, ()) Tip) (1, ()) Tip) (2, ()) (Fork Tip (3, ()) Tip))"
    by code_simp
  have e2: "Option.bind (Option.bind (balance 4 (<) (spine 4)) (balance 4 (<)))
       (\<lambda>s. snapshot (heap s) (root s)) =
     Some (Fork (Fork (Fork Tip (0, ()) Tip) (1, ()) Tip) (2, ()) (Fork Tip (3, ()) Tip))"
    by code_simp
  show ?thesis
    using C10_balance_idempotent [OF asymp_int_less transp_int_less wf_spine b n h]
      asymp_int_less transp_int_less wf_spine [of 4] b n h e0 e1 e2
    by blast
qed

end
